theory Spec2Isabelle
  imports Main "HOL-Library.Word"
begin

unbundle bit_operations_syntax

section \<open>Machine integers and vector access\<close>

text \<open>
  Both programs compute with the C++ type \<open>int\<close>, taken here as 32-bit two's complement.
  An \<open>int\<close> that holds an index or a size is modelled by a mathematical integer, and every
  arithmetic result is brought back into the 32-bit range by \<open>int32\<close>, so that an overflow
  wraps around.  An \<open>int\<close> that is stored in a tree (a value, a delta, a sum) is a
  \<open>32 word\<close>, whose arithmetic wraps in the same way.  The two roles never mix in the
  sources.

  C++ leaves a signed overflow undefined.  In BIT\_1.cpp the only index that can overflow
  is the one \<open>getNext\<close> computes; wrapped, it is negative and is subscripted next, so the
  run ends in the fault \<open>OutOfBounds\<close> below.  In \<open>add\<close> of the compact class a wrapped
  index would fail \<open>check\<close> and end the loop as if nothing had happened; there the overflow
  itself is the fault \<open>SignedOverflow\<close>.
\<close>

definition int32 :: "int \<Rightarrow> int" where
  "int32 x = signed_take_bit 31 x"

type_synonym val = "32 word"

text \<open>
  \<open>std::vector::operator[]\<close> does not check its argument.  An access outside the vector
  has no defined behaviour; the model stops there with the fault \<open>OutOfBounds\<close>, and at
  a signed overflow of \<open>i += lowbit(i)\<close> with the fault \<open>SignedOverflow\<close>.  Neither is an
  exception of the program: neither source file throws or catches anything.
\<close>

datatype fault = OutOfBounds | SignedOverflow

definition fits32 :: "int \<Rightarrow> bool" where
  "fits32 x \<longleftrightarrow> - (2 ^ 31) \<le> x \<and> x < 2 ^ 31"

definition inBounds :: "'a list \<Rightarrow> int \<Rightarrow> bool" where
  "inBounds xs i \<longleftrightarrow> 0 \<le> i \<and> i < int (length xs)"

text \<open>\<open>v.resize(n, x)\<close>: keeps the first \<open>n\<close> elements and pads with \<open>x\<close>.\<close>

definition resize :: "'a list \<Rightarrow> nat \<Rightarrow> 'a \<Rightarrow> 'a list" where
  "resize xs n x = take n xs @ replicate (n - length xs) x"

section \<open>BIT\_1.cpp: class BinaryIndexedTree\<close>

record BinaryIndexedTree =
  m_size :: int
  m_bitArray :: "val list"

text \<open>The constructor: \<open>_size(0), _bitArray(0)\<close>.\<close>

definition BinaryIndexedTree_ctor :: BinaryIndexedTree where
  "BinaryIndexedTree_ctor = \<lparr>m_size = 0, m_bitArray = []\<rparr>"

text \<open>\<open>return (idx - (idx & -idx));\<close>\<close>

definition getPrev :: "int \<Rightarrow> int" where
  "getPrev idx = int32 (idx - int32 (idx AND int32 (- idx)))"

text \<open>\<open>return (idx + (idx & -idx));\<close>\<close>

definition getNext :: "int \<Rightarrow> int" where
  "getNext idx = int32 (idx + int32 (idx AND int32 (- idx)))"

text \<open>
  \<open>while (idx < _size) { _bitArray[idx] += value; idx = getNext(idx); }\<close>
  The loop need not end, so the result is an option: \<open>None\<close> is an execution that never
  returns.
\<close>

partial_function (option) updateTree ::
  "BinaryIndexedTree \<Rightarrow> int \<Rightarrow> val \<Rightarrow> (fault + BinaryIndexedTree) option" where
  "updateTree t idx v =
     (if idx < m_size t then
        (if inBounds (m_bitArray t) idx then
           updateTree
             (t\<lparr>m_bitArray := (m_bitArray t)[nat idx := m_bitArray t ! nat idx + v]\<rparr>)
             (getNext idx) v
         else Some (Inl OutOfBounds))
      else Some (Inr t))"

text \<open>
  \<open>for (int idx = 1; idx < input.size(); ++idx) updateTree(idx, input[idx]);\<close>
  The comparison and the subscript convert \<open>idx\<close> to the unsigned 64-bit \<open>size_t\<close>.
\<close>

partial_function (option) createFenwickTree_loop ::
  "BinaryIndexedTree \<Rightarrow> val list \<Rightarrow> int \<Rightarrow> (fault + BinaryIndexedTree) option" where
  "createFenwickTree_loop t input idx =
     (if take_bit 64 idx < int (length input) then
        (case updateTree t idx (input ! nat (take_bit 64 idx)) of
           None \<Rightarrow> None
         | Some (Inl e) \<Rightarrow> Some (Inl e)
         | Some (Inr t') \<Rightarrow> createFenwickTree_loop t' input (int32 (idx + 1)))
      else Some (Inr t))"

text \<open>\<open>_size = input.size(); _bitArray.resize(_size, 0);\<close> and then the loop.\<close>

definition createFenwickTree ::
  "BinaryIndexedTree \<Rightarrow> val list \<Rightarrow> (fault + BinaryIndexedTree) option" where
  "createFenwickTree t input =
     (let sz = int32 (int (length input)) in
      createFenwickTree_loop
        (t\<lparr>m_size := sz, m_bitArray := resize (m_bitArray t) (nat (take_bit 64 sz)) 0\<rparr>)
        input 1)"

text \<open>\<open>while (idx > 0) { sum += _bitArray[idx]; idx = getPrev(idx); }\<close>\<close>

partial_function (option) getPrefixSum_loop ::
  "BinaryIndexedTree \<Rightarrow> int \<Rightarrow> val \<Rightarrow> (fault + val) option" where
  "getPrefixSum_loop t idx s =
     (if idx > 0 then
        (if inBounds (m_bitArray t) idx then
           getPrefixSum_loop t (getPrev idx) (s + m_bitArray t ! nat idx)
         else Some (Inl OutOfBounds))
      else Some (Inr s))"

definition getPrefixSum :: "BinaryIndexedTree \<Rightarrow> int \<Rightarrow> (fault + val) option" where
  "getPrefixSum t idx =
     (if idx \<ge> m_size t then Some (Inr 0) else getPrefixSum_loop t idx 0)"

text \<open>
  \<open>while (predecessorIdx > ancesterIdx) { value -= _bitArray[predecessorIdx];
  predecessorIdx = getPrev(predecessorIdx); }\<close>
\<close>

partial_function (option) getOriginalValue_loop ::
  "BinaryIndexedTree \<Rightarrow> int \<Rightarrow> int \<Rightarrow> val \<Rightarrow> (fault + val) option" where
  "getOriginalValue_loop t predecessorIdx ancesterIdx v =
     (if predecessorIdx > ancesterIdx then
        (if inBounds (m_bitArray t) predecessorIdx then
           getOriginalValue_loop t (getPrev predecessorIdx) ancesterIdx
             (v - m_bitArray t ! nat predecessorIdx)
         else Some (Inl OutOfBounds))
      else Some (Inr v))"

definition getOriginalValue :: "BinaryIndexedTree \<Rightarrow> int \<Rightarrow> (fault + val) option" where
  "getOriginalValue t idx =
     (if idx \<ge> m_size t then Some (Inr 0)
      else if \<not> inBounds (m_bitArray t) idx then Some (Inl OutOfBounds)
      else getOriginalValue_loop t (int32 (idx - 1)) (getPrev idx) (m_bitArray t ! nat idx))"

text \<open>
  The first loop of \<open>getSum\<close>:
  \<open>do { sum += _bitArray[ancestorIdx]; ancestorIdx = getPrev(ancestorIdx); }
  while (ancestorIdx >= startIdx);\<close>
  It hands the sum and the index it stopped at to the second loop.
\<close>

partial_function (option) getSum_loop1 ::
  "BinaryIndexedTree \<Rightarrow> int \<Rightarrow> int \<Rightarrow> val \<Rightarrow> (fault + val \<times> int) option" where
  "getSum_loop1 t ancestorIdx startIdx s =
     (if inBounds (m_bitArray t) ancestorIdx then
        (if getPrev ancestorIdx \<ge> startIdx then
           getSum_loop1 t (getPrev ancestorIdx) startIdx (s + m_bitArray t ! nat ancestorIdx)
         else Some (Inr (s + m_bitArray t ! nat ancestorIdx, getPrev ancestorIdx)))
      else Some (Inl OutOfBounds))"

text \<open>
  The second loop of \<open>getSum\<close>:
  \<open>while (predecessorIdx > ancestorIdx) { sum -= _bitArray[predecessorIdx];
  predecessorIdx = getPrev(predecessorIdx); }\<close>
\<close>

partial_function (option) getSum_loop2 ::
  "BinaryIndexedTree \<Rightarrow> int \<Rightarrow> int \<Rightarrow> val \<Rightarrow> (fault + val) option" where
  "getSum_loop2 t predecessorIdx ancestorIdx s =
     (if predecessorIdx > ancestorIdx then
        (if inBounds (m_bitArray t) predecessorIdx then
           getSum_loop2 t (getPrev predecessorIdx) ancestorIdx
             (s - m_bitArray t ! nat predecessorIdx)
         else Some (Inl OutOfBounds))
      else Some (Inr s))"

definition getSum :: "BinaryIndexedTree \<Rightarrow> int \<Rightarrow> int \<Rightarrow> (fault + val) option" where
  "getSum t startIdx endIdx =
     (if startIdx > endIdx then Some (Inr 0)
      else
        (case getSum_loop1 t endIdx startIdx 0 of
           None \<Rightarrow> None
         | Some (Inl e) \<Rightarrow> Some (Inl e)
         | Some (Inr (s, ancestorIdx)) \<Rightarrow> getSum_loop2 t (int32 (startIdx - 1)) ancestorIdx s))"

section \<open>BIT\_2\_compact\_1.cpp: class BinaryIndexedTree\_Compact\<close>

record BinaryIndexedTree_Compact =
  N :: int
  BIT :: "val list"

definition BinaryIndexedTree_Compact_ctor :: BinaryIndexedTree_Compact where
  "BinaryIndexedTree_Compact_ctor = \<lparr>N = 0, BIT = []\<rparr>"

text \<open>\<open>if (size <= 0) return; N = size; BIT.resize(N, 0);\<close> (the parameter \<open>size\<close> is \<open>sz\<close> here).\<close>

definition init :: "BinaryIndexedTree_Compact \<Rightarrow> int \<Rightarrow> BinaryIndexedTree_Compact" where
  "init c sz =
     (if sz \<le> 0 then c
      else c\<lparr>N := sz, BIT := resize (BIT c) (nat (take_bit 64 sz)) 0\<rparr>)"

text \<open>\<open>return id & (-id);\<close>\<close>

definition lowbit :: "int \<Rightarrow> int" where
  "lowbit id' = int32 (id' AND int32 (- id'))"

text \<open>\<open>return (1 <= id && id < N);\<close>\<close>

definition check :: "BinaryIndexedTree_Compact \<Rightarrow> int \<Rightarrow> bool" where
  "check c id' \<longleftrightarrow> 1 \<le> id' \<and> id' < N c"

text \<open>
  \<open>for (int i = id; check(i); i += lowbit(i)) BIT[i] += num;\<close>
  The step \<open>i += lowbit(i)\<close> is taken when the sum is an \<open>int\<close>.
\<close>

partial_function (option) add_loop ::
  "BinaryIndexedTree_Compact \<Rightarrow> int \<Rightarrow> val \<Rightarrow> (fault + BinaryIndexedTree_Compact) option" where
  "add_loop c i num =
     (if check c i then
        (if inBounds (BIT c) i then
           (if fits32 (i + lowbit i) then
              add_loop (c\<lparr>BIT := (BIT c)[nat i := BIT c ! nat i + num]\<rparr>) (i + lowbit i) num
            else Some (Inl SignedOverflow))
         else Some (Inl OutOfBounds))
      else Some (Inr c))"

definition add ::
  "BinaryIndexedTree_Compact \<Rightarrow> int \<Rightarrow> val \<Rightarrow> (fault + BinaryIndexedTree_Compact) option" where
  "add c id' num = add_loop c id' num"

text \<open>\<open>for (int i = id; check(i); i -= lowbit(i)) ret += BIT[i];\<close>\<close>

partial_function (option) sum_loop ::
  "BinaryIndexedTree_Compact \<Rightarrow> int \<Rightarrow> val \<Rightarrow> (fault + val) option" where
  "sum_loop c i ret =
     (if check c i then
        (if inBounds (BIT c) i then
           sum_loop c (int32 (i - lowbit i)) (ret + BIT c ! nat i)
         else Some (Inl OutOfBounds))
      else Some (Inr ret))"

definition sum_compact :: "BinaryIndexedTree_Compact \<Rightarrow> int \<Rightarrow> (fault + val) option" where
  "sum_compact c id' = sum_loop c id' 0"



section \<open>Callers and reachable states\<close>

text \<open>
  A caller of \<open>BinaryIndexedTree\<close> builds the tree from a vector and then calls the
  public member functions in any order.  \<open>perform\<close> gives the state of the object after
  one call: \<open>updateTree\<close> returns the modified object; the bodies of \<open>getPrefixSum\<close>,
  \<open>getSum\<close> and \<open>getOriginalValue\<close> contain no assignment to \<open>_size\<close> or
  \<open>_bitArray\<close>, so the object after such a call is the object before it.
\<close>

datatype call = Update int val | PrefixSum int | RangeSum int int | PointValue int

fun perform :: "BinaryIndexedTree \<Rightarrow> call \<Rightarrow> (fault + BinaryIndexedTree) option" where
  "perform t (Update idx v) = updateTree t idx v"
| "perform t (PrefixSum idx) =
     (case getPrefixSum t idx of
        None \<Rightarrow> None | Some (Inl e) \<Rightarrow> Some (Inl e) | Some (Inr r) \<Rightarrow> Some (Inr t))"
| "perform t (RangeSum startIdx endIdx) =
     (case getSum t startIdx endIdx of
        None \<Rightarrow> None | Some (Inl e) \<Rightarrow> Some (Inl e) | Some (Inr r) \<Rightarrow> Some (Inr t))"
| "perform t (PointValue idx) =
     (case getOriginalValue t idx of
        None \<Rightarrow> None | Some (Inl e) \<Rightarrow> Some (Inl e) | Some (Inr r) \<Rightarrow> Some (Inr t))"

fun performAll :: "BinaryIndexedTree \<Rightarrow> call list \<Rightarrow> (fault + BinaryIndexedTree) option" where
  "performAll t [] = Some (Inr t)"
| "performAll t (c # cs) =
     (case perform t c of
        None \<Rightarrow> None | Some (Inl e) \<Rightarrow> Some (Inl e) | Some (Inr t') \<Rightarrow> performAll t' cs)"

fun isQuery :: "call \<Rightarrow> bool" where
  "isQuery (Update idx v) = False"
| "isQuery (PrefixSum idx) = True"
| "isQuery (RangeSum startIdx endIdx) = True"
| "isQuery (PointValue idx) = True"

text \<open>
  An update is valid for a tree of capacity \<open>n\<close> when its index lies in \<open>[1, n]\<close>.
\<close>

fun validCall :: "int \<Rightarrow> call \<Rightarrow> bool" where
  "validCall n (Update idx v) \<longleftrightarrow> 1 \<le> idx \<and> idx \<le> n"
| "validCall n (PrefixSum idx) \<longleftrightarrow> True"
| "validCall n (RangeSum startIdx endIdx) \<longleftrightarrow> True"
| "validCall n (PointValue idx) \<longleftrightarrow> True"

text \<open>
  The logical elements: the values of the input vector at the indices \<open>1 .. size - 1\<close>,
  and each update adds its delta to the element at its index.
\<close>

fun record_call :: "(int \<Rightarrow> val) \<Rightarrow> call \<Rightarrow> (int \<Rightarrow> val)" where
  "record_call a (Update idx v) = a(idx := a idx + v)"
| "record_call a (PrefixSum idx) = a"
| "record_call a (RangeSum startIdx endIdx) = a"
| "record_call a (PointValue idx) = a"

definition initial :: "val list \<Rightarrow> int \<Rightarrow> val" where
  "initial input k = (if 1 \<le> k \<and> k < int (length input) then input ! nat k else 0)"

definition logical :: "val list \<Rightarrow> call list \<Rightarrow> int \<Rightarrow> val" where
  "logical input calls = foldl record_call (initial input) calls"

text \<open>
  \<open>reachable input calls t\<close>: the tree \<open>t\<close> is what a freshly constructed object holds
  after \<open>createFenwickTree(input)\<close> and the calls \<open>calls\<close>, all of which returned.  The
  vector has fewer than \<open>2^31\<close> elements, so that \<open>input.size()\<close> fits the \<open>int\<close>
  \<open>_size\<close>.  The capacity of a tree is its number of usable indices.
\<close>

definition reachable :: "val list \<Rightarrow> call list \<Rightarrow> BinaryIndexedTree \<Rightarrow> bool" where
  "reachable input calls t \<longleftrightarrow>
     int (length input) < 2 ^ 31 \<and>
     (\<forall>c \<in> set calls. validCall (int (length input) - 1) c) \<and>
     (case createFenwickTree BinaryIndexedTree_ctor input of
        None \<Rightarrow> False
      | Some (Inl e) \<Rightarrow> False
      | Some (Inr t0) \<Rightarrow> performAll t0 calls = Some (Inr t))"

definition capacity :: "BinaryIndexedTree \<Rightarrow> int" where
  "capacity t = m_size t - 1"

text \<open>
  The same for \<open>BinaryIndexedTree_Compact\<close>, as its \<open>main\<close> uses it: \<open>init(sz)\<close> on a
  freshly constructed object, then calls of \<open>add\<close> and \<open>sum\<close>.
\<close>

datatype call_c = Add int val | Sum int

fun perform_c ::
  "BinaryIndexedTree_Compact \<Rightarrow> call_c \<Rightarrow> (fault + BinaryIndexedTree_Compact) option" where
  "perform_c c (Add id' num) = add c id' num"
| "perform_c c (Sum id') =
     (case sum_compact c id' of
        None \<Rightarrow> None | Some (Inl e) \<Rightarrow> Some (Inl e) | Some (Inr r) \<Rightarrow> Some (Inr c))"

fun performAll_c ::
  "BinaryIndexedTree_Compact \<Rightarrow> call_c list \<Rightarrow> (fault + BinaryIndexedTree_Compact) option" where
  "performAll_c c [] = Some (Inr c)"
| "performAll_c c (k # ks) =
     (case perform_c c k of
        None \<Rightarrow> None | Some (Inl e) \<Rightarrow> Some (Inl e) | Some (Inr c') \<Rightarrow> performAll_c c' ks)"

fun validCall_c :: "int \<Rightarrow> call_c \<Rightarrow> bool" where
  "validCall_c n (Add id' num) \<longleftrightarrow> 1 \<le> id' \<and> id' \<le> n"
| "validCall_c n (Sum id') \<longleftrightarrow> True"

fun record_call_c :: "(int \<Rightarrow> val) \<Rightarrow> call_c \<Rightarrow> (int \<Rightarrow> val)" where
  "record_call_c a (Add id' num) = a(id' := a id' + num)"
| "record_call_c a (Sum id') = a"

definition logical_c :: "call_c list \<Rightarrow> int \<Rightarrow> val" where
  "logical_c calls = foldl record_call_c (\<lambda>k. 0) calls"

definition reachable_c :: "int \<Rightarrow> call_c list \<Rightarrow> BinaryIndexedTree_Compact \<Rightarrow> bool" where
  "reachable_c sz calls c \<longleftrightarrow>
     sz < 2 ^ 31 \<and>
     (\<forall>k \<in> set calls. validCall_c (sz - 1) k) \<and>
     performAll_c (init BinaryIndexedTree_Compact_ctor sz) calls = Some (Inr c)"

section \<open>Notions used in the proofs\<close>

text \<open>
  The lowest set bit of an integer, without the 32-bit wrap-around.
\<close>

definition lb :: "int \<Rightarrow> int" where
  "lb i = i AND - i"

text \<open>
  A well-formed object: the size is a non-negative \<open>int\<close> and the vector has that many
  elements.  \<open>fenwick a t\<close>: every cell \<open>i\<close> of \<open>t\<close> holds the sum of the logical values \<open>a\<close>
  over \<open>(getPrev i, i]\<close>.
\<close>

definition wellFormed :: "BinaryIndexedTree \<Rightarrow> bool" where
  "wellFormed t \<longleftrightarrow>
     0 \<le> m_size t \<and> m_size t < 2 ^ 31 \<and> int (length (m_bitArray t)) = m_size t"

definition fenwick :: "(int \<Rightarrow> val) \<Rightarrow> BinaryIndexedTree \<Rightarrow> bool" where
  "fenwick a t \<longleftrightarrow>
     wellFormed t \<and>
     (\<forall>i. 1 \<le> i \<and> i < m_size t \<longrightarrow> m_bitArray t ! nat i = sum a {getPrev i <.. i})"

definition wellFormed_c :: "BinaryIndexedTree_Compact \<Rightarrow> bool" where
  "wellFormed_c c \<longleftrightarrow> 0 \<le> N c \<and> N c < 2 ^ 31 \<and> int (length (BIT c)) = N c"

definition fenwick_c :: "(int \<Rightarrow> val) \<Rightarrow> BinaryIndexedTree_Compact \<Rightarrow> bool" where
  "fenwick_c a c \<longleftrightarrow>
     wellFormed_c c \<and>
     (\<forall>i. 1 \<le> i \<and> i < N c \<longrightarrow> BIT c ! nat i = sum a {i - lowbit i <.. i})"

text \<open>
  The logical values after the creation loop has handled the indices below \<open>idx\<close>.
\<close>

definition loaded :: "val list \<Rightarrow> int \<Rightarrow> int \<Rightarrow> val" where
  "loaded input idx k = (if 1 \<le> k \<and> k < idx then input ! nat k else 0)"

text \<open>
  The vector of \<open>main\<close> in BIT\_1.cpp, the tree \<open>createFenwickTree\<close> builds from it, and a
  small compact tree (\<open>init(3)\<close>, then \<open>add(1, 7)\<close>).
\<close>

definition ARR :: "val list" where
  "ARR = [0, 1, 2, 3, 4, 5]"

definition mainTree :: BinaryIndexedTree where
  "mainTree = \<lparr>m_size = 6, m_bitArray = [0, 1, 3, 3, 10, 5]\<rparr>"

definition compactTree :: BinaryIndexedTree_Compact where
  "compactTree = \<lparr>N = 3, BIT = [0, 7, 7]\<rparr>"

text \<open>
  A caller that updates the tree of \<open>main\<close> once and then queries it, and the tree it ends
  with.
\<close>

definition sampleCalls :: "call list" where
  "sampleCalls = [Update 3 7, PrefixSum 5, PointValue 3, RangeSum 2 4]"

definition updatedTree :: BinaryIndexedTree where
  "updatedTree = \<lparr>m_size = 6, m_bitArray = [0, 1, 3, 10, 17, 5]\<rparr>"

section \<open>The lowest set bit\<close>

lemma lb_even: "lb (2 * x) = 2 * lb x"
  using push_bit_and [of 1 x "- x"]
  by (simp add: lb_def push_bit_eq_mult mult.commute)

lemma lb_odd: "lb (2 * x + 1) = 1"
proof -
  have "- (2 * x + 1) = NOT (2 * x)"
    by (simp add: not_int_def)
  then have "lb (2 * x + 1) = (2 * x + 1) AND NOT (2 * x)"
    by (simp add: lb_def)
  also have "\<dots> = 1"
  proof (rule bit_eqI)
    fix n
    show "bit ((2 * x + 1) AND NOT (2 * x)) n = bit (1::int) n"
    proof (cases n)
      case 0
      then show ?thesis by (simp add: bit_0 even_and_iff)
    next
      case (Suc m)
      have "bit (2 * x + 1) (Suc m) = bit x m" "bit (2 * x) (Suc m) = bit x m"
        by (simp_all add: bit_Suc)
      then show ?thesis
        by (simp add: Suc bit_and_iff bit_not_iff)
    qed
  qed
  finally show ?thesis .
qed

lemma lb_pos: "0 < i \<Longrightarrow> 0 < lb i \<and> lb i \<le> i"
proof (induction "nat i" arbitrary: i rule: less_induct)
  case less
  show ?case
  proof (cases "even i")
    case True
    then obtain x where x: "i = 2 * x" by (elim evenE)
    with less.prems have "0 < x" "nat x < nat i" by auto
    from less.hyps [OF this(2) this(1)] show ?thesis by (simp add: x lb_even)
  next
    case False
    then obtain x where x: "i = 2 * x + 1" by (elim oddE)
    with less.prems show ?thesis by (simp add: lb_odd)
  qed
qed

lemma lb_power2: "lb (2 ^ k) = 2 ^ k"
proof (induction k)
  case 0
  show ?case using lb_odd [of 0] by simp
next
  case (Suc k)
  then show ?case by (simp add: lb_even)
qed

text \<open>
  Adding its lowest set bit to \<open>j\<close> neither enters nor leaves the range of a cell
  \<open>i\<close> other than \<open>j\<close> itself.
\<close>

lemma covers_next:
  "0 < i \<Longrightarrow> 0 < j \<Longrightarrow> j \<noteq> i \<Longrightarrow>
   (i - lb i < j + lb j \<and> j + lb j \<le> i) \<longleftrightarrow> (i - lb i < j \<and> j \<le> i)"
proof (induction "nat i" arbitrary: i j rule: less_induct)
  case less
  show ?case
  proof (cases "even i")
    case iodd: False
    then obtain x where x: "i = 2 * x + 1" by (elim oddE)
    have "even (j + lb j)"
    proof (cases "even j")
      case True
      then obtain y where "j = 2 * y" by (elim evenE)
      then show ?thesis by (simp add: lb_even)
    next
      case False
      then obtain y where "j = 2 * y + 1" by (elim oddE)
      then show ?thesis by (simp add: lb_odd)
    qed
    then have "j + lb j \<noteq> i" using iodd by auto
    then show ?thesis using less.prems by (auto simp add: x lb_odd)
  next
    case True
    then obtain x where x: "i = 2 * x" by (elim evenE)
    with less.prems have xp: "0 < x" "nat x < nat i" by auto
    show ?thesis
    proof (cases "even j")
      case True
      then obtain y where y: "j = 2 * y" by (elim evenE)
      with less.prems x have "0 < y" "y \<noteq> x" by auto
      from less.hyps [OF xp(2) xp(1) this] show ?thesis
        unfolding x y lb_even by arith
    next
      case False
      then obtain y where y: "j = 2 * y + 1" by (elim oddE)
      show ?thesis unfolding x y lb_even lb_odd by arith
    qed
  qed
qed

text \<open>
  Below a cell \<open>b\<close>, removing lowest set bits never jumps over \<open>b - lb b\<close>.
\<close>

lemma walk_down:
  "0 < b \<Longrightarrow> b - lb b < p \<Longrightarrow> p < b \<Longrightarrow> b - lb b \<le> p - lb p"
proof (induction "nat b" arbitrary: b p rule: less_induct)
  case less
  show ?case
  proof (cases "even b")
    case False
    then obtain x where x: "b = 2 * x + 1" by (elim oddE)
    with less.prems show ?thesis by (simp add: lb_odd)
  next
    case True
    then obtain x where x: "b = 2 * x" by (elim evenE)
    show ?thesis
    proof (cases "even p")
      case True
      then obtain y where y: "p = 2 * y" by (elim evenE)
      from less.prems have "x - lb x < y" "y < x"
        by (simp_all add: x y lb_even)
      moreover from less.prems have "0 < x" "nat x < nat b"
        by (simp_all add: x)
      ultimately have "x - lb x \<le> y - lb y"
        using less.hyps by blast
      then show ?thesis by (simp add: x y lb_even)
    next
      case False
      then obtain y where y: "p = 2 * y + 1" by (elim oddE)
      with less.prems show ?thesis by (simp add: x lb_even lb_odd)
    qed
  qed
qed

section \<open>32-bit arithmetic\<close>

lemma int32_id: "- (2 ^ 31) \<le> x \<Longrightarrow> x < 2 ^ 31 \<Longrightarrow> int32 x = x"
  by (simp add: int32_def signed_take_bit_int_eq_self_iff)

lemma int32_over: "2 ^ 31 \<le> x \<Longrightarrow> x < 2 ^ 32 \<Longrightarrow> int32 x = x - 2 ^ 32"
proof -
  assume a: "2 ^ 31 \<le> x" "x < 2 ^ 32"
  have "int32 x = take_bit 32 (x + 2 ^ 31) - 2 ^ 31"
    by (simp add: int32_def signed_take_bit_eq_take_bit_shift)
  also have "take_bit 32 (x + 2 ^ 31) = (x + 2 ^ 31) mod 2 ^ 32"
    by (simp add: take_bit_eq_mod)
  also have "(x + 2 ^ 31) mod 2 ^ 32 = x + 2 ^ 31 - 2 ^ 32"
    using a by (simp add: mod_pos_geq)
  finally show ?thesis by simp
qed

lemma lowbit_pos: "0 < i \<Longrightarrow> i < 2 ^ 31 \<Longrightarrow> int32 (i AND int32 (- i)) = lb i"
proof -
  assume a: "0 < i" "i < 2 ^ 31"
  then have "int32 (- i) = - i" by (simp add: int32_id)
  moreover from lb_pos [OF a(1)] a have "int32 (lb i) = lb i" by (simp add: int32_id)
  ultimately show ?thesis by (simp add: lb_def)
qed

lemma lowbit_lb: "0 < i \<Longrightarrow> i < 2 ^ 31 \<Longrightarrow> lowbit i = lb i"
  by (simp add: lowbit_def lowbit_pos)

lemma getPrev_pos: "0 < i \<Longrightarrow> i < 2 ^ 31 \<Longrightarrow> getPrev i = i - lb i"
proof -
  assume a: "0 < i" "i < 2 ^ 31"
  from lb_pos [OF a(1)] a have "int32 (i - lb i) = i - lb i" by (simp add: int32_id)
  with lowbit_pos [OF a] show ?thesis by (simp add: getPrev_def)
qed

lemma getNext_small: "0 < i \<Longrightarrow> i + lb i < 2 ^ 31 \<Longrightarrow> getNext i = i + lb i"
proof -
  assume a: "0 < i" "i + lb i < 2 ^ 31"
  from lb_pos [OF a(1)] a have "i < 2 ^ 31" "int32 (i + lb i) = i + lb i"
    by (simp_all add: int32_id)
  with lowbit_pos [OF a(1)] show ?thesis by (simp add: getNext_def)
qed

lemma getNext_over: "0 < i \<Longrightarrow> i < 2 ^ 31 \<Longrightarrow> 2 ^ 31 \<le> i + lb i \<Longrightarrow> getNext i < 0"
proof -
  assume a: "0 < i" "i < 2 ^ 31" "2 ^ 31 \<le> i + lb i"
  from lb_pos [OF a(1)] a have "int32 (i + lb i) = i + lb i - 2 ^ 32"
    by (intro int32_over) simp_all
  with lowbit_pos [OF a(1,2)] lb_pos [OF a(1)] a show ?thesis by (simp add: getNext_def)
qed

lemma getPrev_0: "getPrev 0 = 0"
  by (simp add: getPrev_def int32_def)

lemma getNext_0: "getNext 0 = 0"
  by (simp add: getNext_def int32_def)

section \<open>Sums over index ranges\<close>

lemma sum_point_update:
  fixes a :: "int \<Rightarrow> val"
  shows "sum (a(j := a j + v)) {l <.. u} = sum a {l <.. u} + (if l < j \<and> j \<le> u then v else 0)"
proof (cases "l < j \<and> j \<le> u")
  case True
  then have j: "j \<in> {l <.. u}" by simp
  have "sum (a(j := a j + v)) {l <.. u} = (a j + v) + sum (a(j := a j + v)) ({l <.. u} - {j})"
    using sum.remove [OF _ j, of "a(j := a j + v)"] by simp
  also have "sum (a(j := a j + v)) ({l <.. u} - {j}) = sum a ({l <.. u} - {j})"
    by (rule sum.cong) simp_all
  also have "a j + v + sum a ({l <.. u} - {j}) = sum a {l <.. u} + v"
    using sum.remove [OF _ j, of a] by simp
  finally show ?thesis using True by simp
next
  case False
  then have "sum (a(j := a j + v)) {l <.. u} = sum a {l <.. u}"
    by (intro sum.cong) auto
  with False show ?thesis by (simp only: if_False add_0_right)
qed

lemma sum_split:
  fixes a :: "int \<Rightarrow> val"
  shows "l \<le> m \<Longrightarrow> m \<le> u \<Longrightarrow> sum a {l <.. m} + sum a {m <.. u} = sum a {l <.. u}"
proof -
  assume "l \<le> m" "m \<le> u"
  then have "{l <.. u} = {l <.. m} \<union> {m <.. u}" "{l <.. m} \<inter> {m <.. u} = {}"
    by auto
  then show ?thesis by (simp add: sum.union_disjoint)
qed

lemma sum_last:
  fixes a :: "int \<Rightarrow> val"
  shows "l < i \<Longrightarrow> sum a {l <.. i - 1} + a i = sum a {l <.. i}"
proof -
  assume "l < i"
  moreover have "{i - 1 <.. i} = {i}" by auto
  ultimately show ?thesis using sum_split [of l "i - 1" i a] by simp
qed

section \<open>updateTree\<close>

text \<open>
  An update that returns has added \<open>v\<close> to exactly the cells whose range contains
  \<open>idx\<close>.  A run in which \<open>getNext\<close> overflows does not return: the wrapped index is
  negative, passes the loop guard and is subscripted.
\<close>

lemma updateTree_effect:
  "wellFormed t \<Longrightarrow> 1 \<le> idx \<Longrightarrow> updateTree t idx v = Some (Inr t') \<Longrightarrow>
   wellFormed t' \<and> m_size t' = m_size t \<and>
   (\<forall>i. 1 \<le> i \<and> i < m_size t \<longrightarrow>
      m_bitArray t' ! nat i =
      m_bitArray t ! nat i + (if i - lb i < idx \<and> idx \<le> i then v else 0))"
proof (induction "nat (m_size t - idx)" arbitrary: t idx rule: less_induct)
  case less
  show ?case
  proof (cases "idx < m_size t")
    case False
    with less.prems have "t' = t"
      by (simp add: updateTree.simps [of t idx])
    with less.prems False show ?thesis by simp
  next
    case True
    define t1 where "t1 = t\<lparr>m_bitArray := (m_bitArray t)[nat idx := m_bitArray t ! nat idx + v]\<rparr>"
    from True less.prems have ib: "inBounds (m_bitArray t) idx"
      by (simp add: inBounds_def wellFormed_def)
    have wf1: "wellFormed t1" "m_size t1 = m_size t"
      using less.prems by (simp_all add: t1_def wellFormed_def)
    from less.prems True ib have run: "updateTree t1 (getNext idx) v = Some (Inr t')"
      by (simp add: updateTree.simps [of t idx] t1_def)
    from True less.prems have small: "0 < idx" "idx < 2 ^ 31"
      by (simp_all add: wellFormed_def)
    have nx: "getNext idx = idx + lb idx"
    proof (rule ccontr)
      assume "getNext idx \<noteq> idx + lb idx"
      with getNext_small [OF small(1)] have "2 ^ 31 \<le> idx + lb idx" by force
      from getNext_over [OF small this] have neg: "getNext idx < 0" .
      with wf1 have "getNext idx < m_size t1" "\<not> inBounds (m_bitArray t1) (getNext idx)"
        by (simp_all add: wellFormed_def inBounds_def)
      then have "updateTree t1 (getNext idx) v = Some (Inl OutOfBounds)"
        by (simp add: updateTree.simps [of t1 "getNext idx"])
      with run show False by simp
    qed
    from lb_pos [OF small(1)] have lbp: "0 < lb idx" "lb idx \<le> idx" by simp_all
    have "nat (m_size t1 - getNext idx) < nat (m_size t - idx)"
      using True lbp by (simp add: nx wf1)
    moreover have "1 \<le> getNext idx" using lbp small by (simp add: nx)
    ultimately have IH: "wellFormed t' \<and> m_size t' = m_size t1 \<and>
      (\<forall>i. 1 \<le> i \<and> i < m_size t1 \<longrightarrow>
        m_bitArray t' ! nat i =
        m_bitArray t1 ! nat i + (if i - lb i < getNext idx \<and> getNext idx \<le> i then v else 0))"
      using less.hyps [of t1 "getNext idx"] wf1 run by blast
    have "m_bitArray t' ! nat i =
          m_bitArray t ! nat i + (if i - lb i < idx \<and> idx \<le> i then v else 0)"
      if i: "1 \<le> i" "i < m_size t" for i
    proof (cases "i = idx")
      case True
      have "m_bitArray t1 ! nat idx = m_bitArray t ! nat idx + v"
        using ib by (simp add: t1_def inBounds_def nat_less_iff)
      with IH i lbp show ?thesis by (simp add: True nx wf1)
    next
      case False
      then have "m_bitArray t1 ! nat i = m_bitArray t ! nat i"
        using i small by (simp add: t1_def)
      moreover have "(i - lb i < idx + lb idx \<and> idx + lb idx \<le> i) \<longleftrightarrow> (i - lb i < idx \<and> idx \<le> i)"
        using covers_next [of i idx] i small False by simp
      ultimately show ?thesis using IH i by (simp add: nx wf1)
    qed
    with IH wf1 show ?thesis by simp
  qed
qed

text \<open>With at most \<open>2^30\<close> cells \<open>getNext\<close> cannot overflow inside the loop.\<close>

lemma updateTree_returns:
  "wellFormed t \<Longrightarrow> m_size t \<le> 2 ^ 30 \<Longrightarrow> 1 \<le> idx \<Longrightarrow>
   \<exists>t'. updateTree t idx v = Some (Inr t')"
proof (induction "nat (m_size t - idx)" arbitrary: t idx rule: less_induct)
  case less
  show ?case
  proof (cases "idx < m_size t")
    case False
    then show ?thesis by (subst updateTree.simps) simp
  next
    case True
    define t1 where "t1 = t\<lparr>m_bitArray := (m_bitArray t)[nat idx := m_bitArray t ! nat idx + v]\<rparr>"
    from True less.prems have ib: "inBounds (m_bitArray t) idx"
      by (simp add: inBounds_def wellFormed_def)
    have wf1: "wellFormed t1" "m_size t1 = m_size t"
      using less.prems by (simp_all add: t1_def wellFormed_def)
    from less.prems have pos: "0 < idx" by simp
    from lb_pos [OF pos] have lbp: "0 < lb idx" "lb idx \<le> idx" by simp_all
    with True less.prems have "idx + lb idx < 2 ^ 31" by simp
    from getNext_small [OF pos this] have nx: "getNext idx = idx + lb idx" .
    have "nat (m_size t1 - getNext idx) < nat (m_size t - idx)"
      using True lbp by (simp add: nx wf1)
    moreover have "1 \<le> getNext idx" using lbp pos by (simp add: nx)
    ultimately have "\<exists>t'. updateTree t1 (getNext idx) v = Some (Inr t')"
      using less.hyps [of t1 "getNext idx"] wf1 less.prems by simp
    then show ?thesis
      using True ib by (subst updateTree.simps) (simp add: t1_def)
  qed
qed

text \<open>On any well-formed tree the loop started at an index from 1 on comes to an end.\<close>

lemma updateTree_stops:
  "wellFormed t \<Longrightarrow> 1 \<le> idx \<Longrightarrow> \<exists>r. updateTree t idx v = Some r"
proof (induction "nat (m_size t - idx)" arbitrary: t idx rule: less_induct)
  case less
  show ?case
  proof (cases "idx < m_size t")
    case False
    then show ?thesis by (subst updateTree.simps) simp
  next
    case True
    define t1 where "t1 = t\<lparr>m_bitArray := (m_bitArray t)[nat idx := m_bitArray t ! nat idx + v]\<rparr>"
    from True less.prems have ib: "inBounds (m_bitArray t) idx"
      by (simp add: inBounds_def wellFormed_def)
    have wf1: "wellFormed t1" "m_size t1 = m_size t"
      using less.prems by (simp_all add: t1_def wellFormed_def)
    from True less.prems have small: "0 < idx" "idx < 2 ^ 31"
      by (simp_all add: wellFormed_def)
    from lb_pos [OF small(1)] have lbp: "0 < lb idx" "lb idx \<le> idx" by simp_all
    have "\<exists>r. updateTree t1 (getNext idx) v = Some r"
    proof (cases "idx + lb idx < 2 ^ 31")
      case True
      from getNext_small [OF small(1) this] have nx: "getNext idx = idx + lb idx" .
      have "nat (m_size t1 - getNext idx) < nat (m_size t - idx)"
        using \<open>idx < m_size t\<close> lbp by (simp add: nx wf1)
      moreover have "1 \<le> getNext idx" using lbp small by (simp add: nx)
      ultimately show ?thesis
        using less.hyps [of t1 "getNext idx"] wf1 by simp
    next
      case False
      then have "2 ^ 31 \<le> idx + lb idx" by simp
      from getNext_over [OF small this] have "getNext idx < 0" .
      with wf1 have "getNext idx < m_size t1" "\<not> inBounds (m_bitArray t1) (getNext idx)"
        by (simp_all add: wellFormed_def inBounds_def)
      then show ?thesis
        by (subst updateTree.simps) simp
    qed
    then show ?thesis
      using True ib by (subst updateTree.simps) (simp add: t1_def)
  qed
qed

text \<open>Started at index 0 on a tree that is not empty, the loop stays at index 0.\<close>

lemma updateTree_0_aux:
  assumes "updateTree t idx v = Some y"
  shows "\<not> (idx = 0 \<and> 0 < m_size t \<and> inBounds (m_bitArray t) 0)"
proof (rule updateTree.raw_induct
    [where P = "\<lambda>t idx v y. \<not> (idx = 0 \<and> 0 < m_size t \<and> inBounds (m_bitArray t) 0)",
      OF _ assms])
  fix f :: "BinaryIndexedTree \<Rightarrow> int \<Rightarrow> val \<Rightarrow> (fault + BinaryIndexedTree) option"
  fix t idx v ta
  assume IH: "\<And>t idx v y. f t idx v = Some y \<Longrightarrow>
      \<not> (idx = 0 \<and> 0 < m_size t \<and> inBounds (m_bitArray t) 0)"
  assume body: "(if idx < m_size t then
        (if inBounds (m_bitArray t) idx then
           f (t\<lparr>m_bitArray := (m_bitArray t)[nat idx := m_bitArray t ! nat idx + v]\<rparr>)
             (getNext idx) v
         else Some (Inl OutOfBounds))
      else Some (Inr t)) = Some ta"
  show "\<not> (idx = 0 \<and> 0 < m_size t \<and> inBounds (m_bitArray t) 0)"
  proof
    assume a: "idx = 0 \<and> 0 < m_size t \<and> inBounds (m_bitArray t) 0"
    then have i0: "idx = 0" and sz: "0 < m_size t" and ib: "inBounds (m_bitArray t) 0"
      by simp_all
    define t1 where
      "t1 = t\<lparr>m_bitArray := (m_bitArray t)[nat 0 := m_bitArray t ! nat 0 + v]\<rparr>"
    from body have "f t1 0 v = Some ta"
      unfolding i0 using sz ib by (simp add: t1_def getNext_0)
    from IH [OF this] have "\<not> (0 < m_size t1 \<and> inBounds (m_bitArray t1) 0)"
      by simp
    with sz ib show False by (simp add: t1_def inBounds_def)
  qed
qed

lemma updateTree_0:
  "0 < m_size t \<Longrightarrow> inBounds (m_bitArray t) 0 \<Longrightarrow> updateTree t 0 v = None"
  using updateTree_0_aux [of t 0 v] by (cases "updateTree t 0 v") auto

text \<open>
  On a tree of more than \<open>2^30\<close> cells an update at a power of two runs into the
  overflow; the first update of \<open>createFenwickTree\<close> is at index 1, so no such tree is
  ever built.
\<close>

lemma updateTree_overflow:
  "wellFormed t \<Longrightarrow> 2 ^ 30 < m_size t \<Longrightarrow> k \<le> 30 \<Longrightarrow>
   updateTree t (2 ^ k) v = Some (Inl OutOfBounds)"
proof (induction "30 - k" arbitrary: t k)
  case 0
  then have k: "k = 30" by simp
  define t1 where "t1 = t\<lparr>m_bitArray := (m_bitArray t)[nat (2 ^ 30) := m_bitArray t ! nat (2 ^ 30) + v]\<rparr>"
  from 0 have ib: "inBounds (m_bitArray t) (2 ^ 30)"
    by (simp add: inBounds_def wellFormed_def)
  have wf1: "wellFormed t1" "m_size t1 = m_size t"
    using 0 by (simp_all add: t1_def wellFormed_def)
  have "getNext (2 ^ 30) < 0"
    using lb_power2 [of 30] by (intro getNext_over) simp_all
  with wf1 have "getNext (2 ^ 30) < m_size t1" "\<not> inBounds (m_bitArray t1) (getNext (2 ^ 30))"
    by (simp_all add: wellFormed_def inBounds_def)
  then have "updateTree t1 (getNext (2 ^ 30)) v = Some (Inl OutOfBounds)"
    by (subst updateTree.simps) simp
  then show ?case
    using 0 ib unfolding k by (subst updateTree.simps) (simp add: t1_def)
next
  case (Suc n)
  then have k: "k < 30" "n = 30 - Suc k" by simp_all
  define t1 where "t1 = t\<lparr>m_bitArray := (m_bitArray t)[nat (2 ^ k) := m_bitArray t ! nat (2 ^ k) + v]\<rparr>"
  have p: "(2::int) ^ k < 2 ^ 30"
    using k by (intro power_strict_increasing) simp_all
  with Suc.prems have ib: "inBounds (m_bitArray t) (2 ^ k)" and lt: "2 ^ k < m_size t"
    by (simp_all add: inBounds_def wellFormed_def)
  have wf1: "wellFormed t1" "m_size t1 = m_size t"
    using Suc.prems by (simp_all add: t1_def wellFormed_def)
  have "getNext (2 ^ k) = 2 ^ k + lb (2 ^ k)"
    using p by (intro getNext_small) (simp_all add: lb_power2)
  then have nx: "getNext (2 ^ k) = 2 ^ Suc k"
    by (simp add: lb_power2)
  have "updateTree t1 (2 ^ Suc k) v = Some (Inl OutOfBounds)"
    using Suc.hyps(1) [of "Suc k" t1] k wf1 Suc.prems by simp
  then show ?case
    using ib lt by (subst updateTree.simps) (simp add: t1_def nx)
qed

section \<open>The invariant of BinaryIndexedTree\<close>

lemma fenwick_lb:
  "fenwick a t \<longleftrightarrow>
     wellFormed t \<and>
     (\<forall>i. 1 \<le> i \<and> i < m_size t \<longrightarrow> m_bitArray t ! nat i = sum a {i - lb i <.. i})"
proof -
  have "getPrev i = i - lb i" if "wellFormed t" "1 \<le> i" "i < m_size t" for i
    using that by (intro getPrev_pos) (simp_all add: wellFormed_def)
  then show ?thesis unfolding fenwick_def by auto
qed

lemma fenwick_update:
  assumes "fenwick a t" "1 \<le> idx" "updateTree t idx v = Some (Inr t')"
  shows "fenwick (a(idx := a idx + v)) t' \<and> m_size t' = m_size t"
proof -
  from assms(1) have wf: "wellFormed t"
    and cells: "\<And>i. 1 \<le> i \<Longrightarrow> i < m_size t \<Longrightarrow> m_bitArray t ! nat i = sum a {i - lb i <.. i}"
    by (simp_all add: fenwick_lb)
  from updateTree_effect [OF wf assms(2,3)]
  have wf': "wellFormed t'" and sz: "m_size t' = m_size t"
    and eff: "\<And>i. 1 \<le> i \<Longrightarrow> i < m_size t \<Longrightarrow>
      m_bitArray t' ! nat i =
      m_bitArray t ! nat i + (if i - lb i < idx \<and> idx \<le> i then v else 0)"
    by simp_all
  have "m_bitArray t' ! nat i = sum (a(idx := a idx + v)) {i - lb i <.. i}"
    if "1 \<le> i" "i < m_size t'" for i
    using that eff [of i] cells [of i] by (simp only: sz sum_point_update)
  with wf' sz show ?thesis by (simp add: fenwick_lb)
qed

lemma fenwick_cell:
  assumes "fenwick a t" "1 \<le> i" "i < m_size t"
  shows "inBounds (m_bitArray t) i" and "getPrev i = i - lb i" and "0 < lb i" and "lb i \<le> i"
    and "m_bitArray t ! nat i = sum a {i - lb i <.. i}"
  using assms lb_pos [of i] getPrev_pos [of i]
  by (simp_all add: fenwick_lb wellFormed_def inBounds_def)

lemma getPrefixSum_loop_fenwick:
  "fenwick a t \<Longrightarrow> 0 \<le> k \<Longrightarrow> k < m_size t \<Longrightarrow>
   getPrefixSum_loop t k s = Some (Inr (s + sum a {0 <.. k}))"
proof (induction "nat k" arbitrary: k s rule: less_induct)
  case less
  show ?case
  proof (cases "k = 0")
    case True
    then show ?thesis by (subst getPrefixSum_loop.simps) simp
  next
    case False
    with less.prems have k: "1 \<le> k" by simp
    note c = fenwick_cell [OF less.prems(1) k less.prems(3)]
    from c k less.prems have "getPrefixSum_loop t (k - lb k) (s + m_bitArray t ! nat k) =
        Some (Inr (s + m_bitArray t ! nat k + sum a {0 <.. k - lb k}))"
      by (intro less.hyps) simp_all
    moreover have "sum a {0 <.. k - lb k} + sum a {k - lb k <.. k} = sum a {0 <.. k}"
      using c by (intro sum_split) simp_all
    then have "s + m_bitArray t ! nat k + sum a {0 <.. k - lb k} = s + sum a {0 <.. k}"
      by (simp add: c(5) algebra_simps)
    ultimately show ?thesis
      using k by (subst getPrefixSum_loop.simps) (simp add: c(1,2))
  qed
qed

lemma getPrefixSum_fenwick:
  "fenwick a t \<Longrightarrow> 0 \<le> k \<Longrightarrow> k < m_size t \<Longrightarrow>
   getPrefixSum t k = Some (Inr (sum a {0 <.. k}))"
  by (simp add: getPrefixSum_def getPrefixSum_loop_fenwick)

lemma getPrefixSum_total:
  assumes "fenwick a t"
  shows "\<exists>r. getPrefixSum t k = Some (Inr r)"
proof (cases "0 \<le> k \<and> k < m_size t")
  case True
  with getPrefixSum_fenwick [OF assms] show ?thesis by simp
next
  case False
  show ?thesis
  proof (cases "m_size t \<le> k")
    case True
    then show ?thesis by (simp add: getPrefixSum_def)
  next
    case ge: False
    with False have "k < 0" by simp
    then have "getPrefixSum_loop t k 0 = Some (Inr 0)"
      by (subst getPrefixSum_loop.simps) simp
    with ge show ?thesis by (simp add: getPrefixSum_def)
  qed
qed

lemma getOriginalValue_loop_fenwick:
  "fenwick a t \<Longrightarrow> 0 < b \<Longrightarrow> b < m_size t \<Longrightarrow> b - lb b \<le> p \<Longrightarrow> p < b \<Longrightarrow>
   getOriginalValue_loop t p (b - lb b) v = Some (Inr (v - sum a {b - lb b <.. p}))"
proof (induction "nat p" arbitrary: p v rule: less_induct)
  case less
  show ?case
  proof (cases "p = b - lb b")
    case True
    then show ?thesis by (subst getOriginalValue_loop.simps) simp
  next
    case False
    with less.prems have gt: "b - lb b < p" by simp
    from lb_pos [OF less.prems(2)] gt have p: "1 \<le> p" by simp
    from less.prems have psz: "p < m_size t" by simp
    note c = fenwick_cell [OF less.prems(1) p psz]
    from walk_down [OF less.prems(2) gt less.prems(5)] have down: "b - lb b \<le> p - lb p" .
    from c p down less.prems
    have "getOriginalValue_loop t (p - lb p) (b - lb b) (v - m_bitArray t ! nat p) =
        Some (Inr (v - m_bitArray t ! nat p - sum a {b - lb b <.. p - lb p}))"
      by (intro less.hyps) simp_all
    moreover have "sum a {b - lb b <.. p - lb p} + sum a {p - lb p <.. p} = sum a {b - lb b <.. p}"
      using c down by (intro sum_split) simp_all
    then have "v - m_bitArray t ! nat p - sum a {b - lb b <.. p - lb p} = v - sum a {b - lb b <.. p}"
      by (simp add: c(5) algebra_simps)
    ultimately show ?thesis
      using gt by (subst getOriginalValue_loop.simps) (simp add: c(1,2))
  qed
qed

lemma getOriginalValue_fenwick:
  assumes "fenwick a t" "1 \<le> i" "i < m_size t"
  shows "getOriginalValue t i = Some (Inr (a i))"
proof -
  note c = fenwick_cell [OF assms]
  from assms have "i < 2 ^ 31" by (simp add: fenwick_def wellFormed_def)
  with assms have p: "int32 (i - 1) = i - 1" by (simp add: int32_id)
  from assms c have "getOriginalValue_loop t (i - 1) (i - lb i) (m_bitArray t ! nat i) =
      Some (Inr (m_bitArray t ! nat i - sum a {i - lb i <.. i - 1}))"
    by (intro getOriginalValue_loop_fenwick) simp_all
  moreover have "sum a {i - lb i <.. i - 1} + a i = sum a {i - lb i <.. i}"
    using c by (intro sum_last) simp
  then have "m_bitArray t ! nat i - sum a {i - lb i <.. i - 1} = a i"
    by (simp add: c(5) algebra_simps)
  ultimately show ?thesis
    using assms by (simp add: getOriginalValue_def p c(1,2))
qed

lemma getOriginalValue_total:
  assumes "fenwick a t" "1 \<le> i"
  shows "\<exists>r. getOriginalValue t i = Some (Inr r)"
proof (cases "i < m_size t")
  case True
  from getOriginalValue_fenwick [OF assms True] show ?thesis by simp
next
  case False
  then show ?thesis by (simp add: getOriginalValue_def)
qed

lemma getSum_loop1_fenwick:
  "fenwick a t \<Longrightarrow> 1 \<le> startIdx \<Longrightarrow> startIdx \<le> e \<Longrightarrow> e < m_size t \<Longrightarrow>
   \<exists>anc b. getSum_loop1 t e startIdx s = Some (Inr (s + sum a {anc <.. e}, anc)) \<and>
     0 \<le> anc \<and> anc < startIdx \<and> startIdx \<le> b \<and> b \<le> e \<and> anc = b - lb b"
proof (induction "nat e" arbitrary: e s rule: less_induct)
  case less
  from less.prems have e: "1 \<le> e" by simp
  note c = fenwick_cell [OF less.prems(1) e less.prems(4)]
  show ?case
  proof (cases "startIdx \<le> e - lb e")
    case True
    with c less.prems
    have "\<exists>anc b. getSum_loop1 t (e - lb e) startIdx (s + m_bitArray t ! nat e) =
        Some (Inr (s + m_bitArray t ! nat e + sum a {anc <.. e - lb e}, anc)) \<and>
        0 \<le> anc \<and> anc < startIdx \<and> startIdx \<le> b \<and> b \<le> e - lb e \<and> anc = b - lb b"
      by (intro less.hyps) simp_all
    then obtain anc b where
      run: "getSum_loop1 t (e - lb e) startIdx (s + m_bitArray t ! nat e) =
        Some (Inr (s + m_bitArray t ! nat e + sum a {anc <.. e - lb e}, anc))"
      and ab: "0 \<le> anc" "anc < startIdx" "startIdx \<le> b" "b \<le> e - lb e" "anc = b - lb b"
      by blast
    have "sum a {anc <.. e - lb e} + sum a {e - lb e <.. e} = sum a {anc <.. e}"
      using c ab True by (intro sum_split) simp_all
    then have "s + m_bitArray t ! nat e + sum a {anc <.. e - lb e} = s + sum a {anc <.. e}"
      by (simp add: c(5) algebra_simps)
    with run have "getSum_loop1 t e startIdx s = Some (Inr (s + sum a {anc <.. e}, anc))"
      using True by (subst getSum_loop1.simps) (simp add: c(1,2))
    moreover from ab c have "b \<le> e" by simp
    ultimately show ?thesis using ab by blast
  next
    case False
    then have "getSum_loop1 t e startIdx s = Some (Inr (s + sum a {e - lb e <.. e}, e - lb e))"
      by (subst getSum_loop1.simps) (simp add: c(1,2,5))
    with False c less.prems show ?thesis by force
  qed
qed

lemma getSum_loop2_fenwick:
  "fenwick a t \<Longrightarrow> 0 < b \<Longrightarrow> b < m_size t \<Longrightarrow> b - lb b \<le> p \<Longrightarrow> p < b \<Longrightarrow>
   getSum_loop2 t p (b - lb b) v = Some (Inr (v - sum a {b - lb b <.. p}))"
proof (induction "nat p" arbitrary: p v rule: less_induct)
  case less
  show ?case
  proof (cases "p = b - lb b")
    case True
    then show ?thesis by (subst getSum_loop2.simps) simp
  next
    case False
    with less.prems have gt: "b - lb b < p" by simp
    from lb_pos [OF less.prems(2)] gt have p: "1 \<le> p" by simp
    from less.prems have psz: "p < m_size t" by simp
    note c = fenwick_cell [OF less.prems(1) p psz]
    from walk_down [OF less.prems(2) gt less.prems(5)] have down: "b - lb b \<le> p - lb p" .
    from c p down less.prems
    have "getSum_loop2 t (p - lb p) (b - lb b) (v - m_bitArray t ! nat p) =
        Some (Inr (v - m_bitArray t ! nat p - sum a {b - lb b <.. p - lb p}))"
      by (intro less.hyps) simp_all
    moreover have "sum a {b - lb b <.. p - lb p} + sum a {p - lb p <.. p} = sum a {b - lb b <.. p}"
      using c down by (intro sum_split) simp_all
    then have "v - m_bitArray t ! nat p - sum a {b - lb b <.. p - lb p} = v - sum a {b - lb b <.. p}"
      by (simp add: c(5) algebra_simps)
    ultimately show ?thesis
      using gt by (subst getSum_loop2.simps) (simp add: c(1,2))
  qed
qed

lemma getSum_fenwick:
  assumes "fenwick a t" "1 \<le> i" "i \<le> j" "j < m_size t"
  shows "getSum t i j = Some (Inr (sum a {i - 1 <.. j}))"
proof -
  from getSum_loop1_fenwick [OF assms, of 0] obtain anc b where
    run: "getSum_loop1 t j i 0 = Some (Inr (sum a {anc <.. j}, anc))"
    and ab: "0 \<le> anc" "anc < i" "i \<le> b" "b \<le> j" "anc = b - lb b"
    by auto
  from assms have "i < 2 ^ 31" by (simp add: fenwick_def wellFormed_def)
  with assms have p: "int32 (i - 1) = i - 1" by (simp add: int32_id)
  from assms ab have "getSum_loop2 t (i - 1) (b - lb b) (sum a {anc <.. j}) =
      Some (Inr (sum a {anc <.. j} - sum a {b - lb b <.. i - 1}))"
    by (intro getSum_loop2_fenwick) simp_all
  moreover have "sum a {anc <.. i - 1} + sum a {i - 1 <.. j} = sum a {anc <.. j}"
    using ab assms by (intro sum_split) simp_all
  then have "sum a {anc <.. j} - sum a {anc <.. i - 1} = sum a {i - 1 <.. j}"
    by (simp add: algebra_simps)
  ultimately show ?thesis
    using assms run ab by (simp add: getSum_def p)
qed

lemma getSum_total:
  assumes "fenwick a t" "1 \<le> i" "j < m_size t"
  shows "\<exists>r. getSum t i j = Some (Inr r)"
proof (cases "i \<le> j")
  case True
  from getSum_fenwick [OF assms(1,2) True assms(3)] show ?thesis by simp
next
  case False
  then show ?thesis by (simp add: getSum_def)
qed

lemma createFenwickTree_loop_fenwick:
  "fenwick (loaded input idx) t \<Longrightarrow> m_size t = int (length input) \<Longrightarrow> 1 \<le> idx \<Longrightarrow>
   idx \<le> int (length input) \<Longrightarrow> createFenwickTree_loop t input idx = Some (Inr t') \<Longrightarrow>
   fenwick (initial input) t' \<and> m_size t' = int (length input)"
proof (induction "nat (int (length input) - idx)" arbitrary: t idx rule: less_induct)
  case less
  from less.prems have small: "idx < 2 ^ 31" by (simp add: fenwick_def wellFormed_def)
  with less.prems have tb: "take_bit 64 idx = idx"
    by (simp add: take_bit_int_eq_self)
  show ?case
  proof (cases "idx < int (length input)")
    case False
    with less.prems have eq: "idx = int (length input)" by simp
    from less.prems(5) False have "t' = t"
      by (subst (asm) createFenwickTree_loop.simps) (simp add: tb)
    moreover from eq have "loaded input idx = initial input"
      by (simp add: loaded_def initial_def fun_eq_iff)
    ultimately show ?thesis using less.prems by simp
  next
    case True
    from less.prems(5) True obtain t1 where
      up: "updateTree t idx (input ! nat idx) = Some (Inr t1)"
      and rest: "createFenwickTree_loop t1 input (int32 (idx + 1)) = Some (Inr t')"
      by (subst (asm) createFenwickTree_loop.simps)
        (simp add: tb split: option.splits sum.splits)
    from less.prems True have "idx + 1 < 2 ^ 31"
      by (simp add: fenwick_def wellFormed_def)
    with less.prems(3) have nx: "int32 (idx + 1) = idx + 1"
      by (simp add: int32_id)
    from fenwick_update [OF less.prems(1,3) up]
    have f1: "fenwick ((loaded input idx)(idx := loaded input idx idx + input ! nat idx)) t1"
      and sz: "m_size t1 = m_size t" by simp_all
    have "(loaded input idx)(idx := loaded input idx idx + input ! nat idx) = loaded input (idx + 1)"
      using less.prems(3) by (auto simp add: loaded_def fun_eq_iff)
    with f1 have "fenwick (loaded input (idx + 1)) t1" by simp
    moreover have "nat (int (length input) - (idx + 1)) < nat (int (length input) - idx)"
      using True by simp
    ultimately show ?thesis
      using less.hyps [of "idx + 1" t1] rest True less.prems sz by (simp add: nx)
  qed
qed

lemma createFenwickTree_fenwick:
  assumes "int (length input) < 2 ^ 31"
    and "createFenwickTree BinaryIndexedTree_ctor input = Some (Inr t)"
  shows "fenwick (initial input) t \<and> m_size t = int (length input)"
proof -
  define t0 where
    "t0 = \<lparr>m_size = int (length input), m_bitArray = replicate (length input) (0::val)\<rparr>"
  from assms(1) have sz: "int32 (int (length input)) = int (length input)"
    "take_bit 64 (int (length input)) = int (length input)"
    by (simp_all add: int32_id take_bit_int_eq_self)
  from assms(2) have run: "createFenwickTree_loop t0 input 1 = Some (Inr t)"
    by (simp add: createFenwickTree_def BinaryIndexedTree_ctor_def resize_def sz t0_def)
  have "loaded input 1 = (\<lambda>k. 0)"
    by (auto simp add: loaded_def fun_eq_iff)
  then have f0: "fenwick (loaded input 1) t0"
    using assms(1) by (simp add: fenwick_def wellFormed_def t0_def nat_less_iff)
  show ?thesis
  proof (cases "1 \<le> int (length input)")
    case True
    from createFenwickTree_loop_fenwick [OF f0 _ _ True run] show ?thesis
      by (simp add: t0_def)
  next
    case False
    then have "input = []" by (cases input) simp_all
    with run have "t = t0"
      by (subst (asm) createFenwickTree_loop.simps) simp
    then show ?thesis
      using \<open>input = []\<close> by (auto simp add: t0_def fenwick_def wellFormed_def)
  qed
qed

lemma createFenwickTree_size:
  assumes "int (length input) < 2 ^ 31"
    and "createFenwickTree BinaryIndexedTree_ctor input = Some (Inr t)"
  shows "int (length input) \<le> 2 ^ 30"
proof (rule ccontr)
  assume "\<not> int (length input) \<le> 2 ^ 30"
  then have big: "2 ^ 30 < int (length input)" by simp
  define t0 where
    "t0 = \<lparr>m_size = int (length input), m_bitArray = replicate (length input) (0::val)\<rparr>"
  from assms(1) have sz: "int32 (int (length input)) = int (length input)"
    "take_bit 64 (int (length input)) = int (length input)"
    by (simp_all add: int32_id take_bit_int_eq_self)
  from assms(2) have run: "createFenwickTree_loop t0 input 1 = Some (Inr t)"
    by (simp add: createFenwickTree_def BinaryIndexedTree_ctor_def resize_def sz t0_def)
  have "wellFormed t0" "2 ^ 30 < m_size t0"
    using assms(1) big by (simp_all add: wellFormed_def t0_def)
  from updateTree_overflow [OF this, of 0] have "updateTree t0 1 (input ! 1) = Some (Inl OutOfBounds)"
    by simp
  moreover have "(1::int) < int (length input)" using big by simp
  ultimately have "createFenwickTree_loop t0 input 1 = Some (Inl OutOfBounds)"
    by (subst createFenwickTree_loop.simps) simp
  with run show False by simp
qed

lemma query_keeps_tree:
  "isQuery q \<Longrightarrow> perform t q = Some (Inr t') \<Longrightarrow> t' = t"
  by (cases q) (simp_all split: option.splits sum.splits)

lemma performAll_fenwick:
  "fenwick a t \<Longrightarrow> \<forall>c \<in> set calls. validCall (m_size t - 1) c \<Longrightarrow>
   performAll t calls = Some (Inr t') \<Longrightarrow>
   fenwick (foldl record_call a calls) t' \<and> m_size t' = m_size t"
proof (induction calls arbitrary: a t)
  case Nil
  then show ?case by simp
next
  case (Cons c cs)
  from Cons.prems(3) obtain t1 where
    step: "perform t c = Some (Inr t1)" and rest: "performAll t1 cs = Some (Inr t')"
    by (simp split: option.splits sum.splits)
  have "fenwick (record_call a c) t1 \<and> m_size t1 = m_size t"
  proof (cases c)
    case (Update idx v)
    with Cons.prems(2) step have "1 \<le> idx" "updateTree t idx v = Some (Inr t1)"
      by simp_all
    from fenwick_update [OF Cons.prems(1) this] show ?thesis
      by (simp add: Update)
  next
    case (PrefixSum idx)
    with step have "t1 = t" by (simp split: option.splits sum.splits)
    with Cons.prems(1) show ?thesis by (simp add: PrefixSum)
  next
    case (RangeSum i j)
    with step have "t1 = t" by (simp split: option.splits sum.splits)
    with Cons.prems(1) show ?thesis by (simp add: RangeSum)
  next
    case (PointValue idx)
    with step have "t1 = t" by (simp split: option.splits sum.splits)
    with Cons.prems(1) show ?thesis by (simp add: PointValue)
  qed
  with Cons.IH [of "record_call a c" t1] Cons.prems(2) rest show ?case
    by simp
qed

lemma reachable_fenwick:
  assumes "reachable input calls t"
  shows "fenwick (logical input calls) t \<and> m_size t = int (length input)"
proof -
  from assms obtain t0 where
    len: "int (length input) < 2 ^ 31"
    and valid: "\<forall>c \<in> set calls. validCall (int (length input) - 1) c"
    and create: "createFenwickTree BinaryIndexedTree_ctor input = Some (Inr t0)"
    and run: "performAll t0 calls = Some (Inr t)"
    by (auto simp add: reachable_def split: option.splits sum.splits)
  from createFenwickTree_fenwick [OF len create]
  have f0: "fenwick (initial input) t0" and sz: "m_size t0 = int (length input)"
    by simp_all
  from performAll_fenwick [OF f0 _ run] valid sz show ?thesis
    by (simp add: logical_def)
qed

lemma reachable_size:
  assumes "reachable input calls t"
  shows "m_size t \<le> 2 ^ 30"
proof -
  from assms obtain t0 where
    len: "int (length input) < 2 ^ 31"
    and create: "createFenwickTree BinaryIndexedTree_ctor input = Some (Inr t0)"
    by (auto simp add: reachable_def split: option.splits sum.splits)
  from createFenwickTree_size [OF len create] reachable_fenwick [OF assms]
  show ?thesis by simp
qed

section \<open>The invariant of BinaryIndexedTree\_Compact\<close>

lemma fenwick_c_lb:
  "fenwick_c a c \<longleftrightarrow>
     wellFormed_c c \<and>
     (\<forall>i. 1 \<le> i \<and> i < N c \<longrightarrow> BIT c ! nat i = sum a {i - lb i <.. i})"
proof -
  have "lowbit i = lb i" if "wellFormed_c c" "1 \<le> i" "i < N c" for i
    using that by (intro lowbit_lb) (simp_all add: wellFormed_c_def)
  then show ?thesis unfolding fenwick_c_def by auto
qed

text \<open>
  An \<open>add\<close> that returns has added \<open>v\<close> to exactly the cells whose range contains
  \<open>idx\<close>.
\<close>

lemma add_loop_effect:
  "wellFormed_c c \<Longrightarrow> add_loop c idx v = Some (Inr c') \<Longrightarrow>
   wellFormed_c c' \<and> N c' = N c \<and>
     (\<forall>i. 1 \<le> i \<and> i < N c \<longrightarrow>
        BIT c' ! nat i =
        BIT c ! nat i + (if 1 \<le> idx \<and> i - lb i < idx \<and> idx \<le> i then v else 0))"
proof (induction "nat (N c - idx)" arbitrary: c idx rule: less_induct)
  case less
  show ?case
  proof (cases "check c idx")
    case False
    with less.prems(2) have "c' = c"
      by (subst (asm) add_loop.simps) simp
    with less.prems False show ?thesis by (auto simp add: check_def)
  next
    case True
    then have rng: "1 \<le> idx" "idx < N c" by (simp_all add: check_def)
    define c1 where "c1 = c\<lparr>BIT := (BIT c)[nat idx := BIT c ! nat idx + v]\<rparr>"
    from rng less.prems have ib: "inBounds (BIT c) idx"
      by (simp add: inBounds_def wellFormed_c_def)
    have wf1: "wellFormed_c c1" "N c1 = N c"
      using less.prems by (simp_all add: c1_def wellFormed_c_def)
    from rng less.prems have small: "0 < idx" "idx < 2 ^ 31"
      by (simp_all add: wellFormed_c_def)
    from lb_pos [OF small(1)] have lbp: "0 < lb idx" "lb idx \<le> idx" by simp_all
    have low: "lowbit idx = lb idx" by (rule lowbit_lb [OF small])
    have fits: "fits32 (idx + lb idx)"
    proof (rule ccontr)
      assume "\<not> fits32 (idx + lb idx)"
      with True ib have "add_loop c idx v = Some (Inl SignedOverflow)"
        by (subst add_loop.simps) (simp add: low)
      with less.prems(2) show False by simp
    qed
    with less.prems(2) True ib have run: "add_loop c1 (idx + lb idx) v = Some (Inr c')"
      by (subst (asm) add_loop.simps) (simp add: c1_def low)
    have "nat (N c1 - (idx + lb idx)) < nat (N c - idx)"
      using rng lbp by (simp add: wf1)
    from less.hyps [OF this wf1(1) run]
    have wf': "wellFormed_c c'" "N c' = N c1"
      and eff: "\<And>i. 1 \<le> i \<Longrightarrow> i < N c1 \<Longrightarrow>
          BIT c' ! nat i =
          BIT c1 ! nat i +
          (if 1 \<le> idx + lb idx \<and> i - lb i < idx + lb idx \<and> idx + lb idx \<le> i then v else 0)"
      by simp_all
    have "BIT c' ! nat i =
          BIT c ! nat i + (if 1 \<le> idx \<and> i - lb i < idx \<and> idx \<le> i then v else 0)"
      if i: "1 \<le> i" "i < N c" for i
    proof (cases "i = idx")
      case True
      have "BIT c1 ! nat idx = BIT c ! nat idx + v"
        using ib by (simp add: c1_def inBounds_def nat_less_iff)
      with eff [of idx] i lbp rng show ?thesis by (simp add: True wf1)
    next
      case False
      then have same: "BIT c1 ! nat i = BIT c ! nat i"
        using i small by (simp add: c1_def)
      have "(i - lb i < idx + lb idx \<and> idx + lb idx \<le> i) \<longleftrightarrow> (i - lb i < idx \<and> idx \<le> i)"
        using covers_next [of i idx] i small False by simp
      with lbp rng
      have "(1 \<le> idx + lb idx \<and> i - lb i < idx + lb idx \<and> idx + lb idx \<le> i) \<longleftrightarrow>
          (1 \<le> idx \<and> i - lb i < idx \<and> idx \<le> i)"
        by auto
      with eff [of i] i same show ?thesis by (simp add: wf1)
    qed
    with wf' wf1 show ?thesis by simp
  qed
qed


lemma fenwick_c_add:
  assumes "fenwick_c a c" "1 \<le> idx" "add c idx v = Some (Inr c')"
  shows "fenwick_c (a(idx := a idx + v)) c' \<and> N c' = N c"
proof -
  from assms(1) have wf: "wellFormed_c c"
    and cells: "\<And>i. 1 \<le> i \<Longrightarrow> i < N c \<Longrightarrow> BIT c ! nat i = sum a {i - lb i <.. i}"
    by (simp_all add: fenwick_c_lb)
  from assms(3) have run: "add_loop c idx v = Some (Inr c')" by (simp add: add_def)
  from add_loop_effect [OF wf run]
  have wf': "wellFormed_c c'" and sz: "N c' = N c"
    and eff: "\<And>i. 1 \<le> i \<Longrightarrow> i < N c \<Longrightarrow>
      BIT c' ! nat i =
      BIT c ! nat i + (if 1 \<le> idx \<and> i - lb i < idx \<and> idx \<le> i then v else 0)"
    by simp_all
  have "BIT c' ! nat i = sum (a(idx := a idx + v)) {i - lb i <.. i}"
    if "1 \<le> i" "i < N c'" for i
    using that eff [of i] cells [of i] assms(2) by (simp only: sz sum_point_update simp_thms)
  with wf' sz show ?thesis by (simp add: fenwick_c_lb)
qed

lemma sum_loop_fenwick:
  "fenwick_c a c \<Longrightarrow> 0 \<le> k \<Longrightarrow> k < N c \<Longrightarrow>
   sum_loop c k s = Some (Inr (s + sum a {0 <.. k}))"
proof (induction "nat k" arbitrary: k s rule: less_induct)
  case less
  show ?case
  proof (cases "k = 0")
    case True
    then show ?thesis by (subst sum_loop.simps) (simp add: check_def)
  next
    case False
    with less.prems have k: "1 \<le> k" "check c k" by (simp_all add: check_def)
    from less.prems k have small: "0 < k" "k < 2 ^ 31"
      and ib: "inBounds (BIT c) k"
      and cell: "BIT c ! nat k = sum a {k - lb k <.. k}"
      by (simp_all add: fenwick_c_lb wellFormed_c_def inBounds_def)
    from lb_pos [OF small(1)] have lbp: "0 < lb k" "lb k \<le> k" by simp_all
    with small have nx: "int32 (k - lowbit k) = k - lb k"
      by (simp add: lowbit_lb int32_id)
    from lbp k less.prems have "sum_loop c (k - lb k) (s + BIT c ! nat k) =
        Some (Inr (s + BIT c ! nat k + sum a {0 <.. k - lb k}))"
      by (intro less.hyps) simp_all
    moreover have "sum a {0 <.. k - lb k} + sum a {k - lb k <.. k} = sum a {0 <.. k}"
      using lbp by (intro sum_split) simp_all
    then have "s + BIT c ! nat k + sum a {0 <.. k - lb k} = s + sum a {0 <.. k}"
      by (simp add: cell algebra_simps)
    ultimately show ?thesis
      using k ib by (subst sum_loop.simps) (simp add: nx)
  qed
qed

lemma sum_loop_returns:
  "wellFormed_c c \<Longrightarrow> \<exists>r. sum_loop c k s = Some (Inr r)"
proof (induction "nat k" arbitrary: k s rule: less_induct)
  case less
  show ?case
  proof (cases "check c k")
    case False
    then show ?thesis by (subst sum_loop.simps) simp
  next
    case True
    with less.prems have small: "0 < k" "k < 2 ^ 31" and ib: "inBounds (BIT c) k"
      by (simp_all add: check_def wellFormed_c_def inBounds_def)
    from lb_pos [OF small(1)] have lbp: "0 < lb k" "lb k \<le> k" by simp_all
    with small have nx: "int32 (k - lowbit k) = k - lb k"
      by (simp add: lowbit_lb int32_id)
    have "\<exists>r. sum_loop c (k - lb k) (s + BIT c ! nat k) = Some (Inr r)"
      using lbp small less.prems by (intro less.hyps) simp_all
    then show ?thesis
      using True ib by (subst sum_loop.simps) (simp add: nx)
  qed
qed

lemma init_fenwick_c:
  assumes "sz < 2 ^ 31"
  shows "fenwick_c (\<lambda>k. 0) (init BinaryIndexedTree_Compact_ctor sz)"
proof (cases "sz \<le> 0")
  case True
  then show ?thesis
    by (auto simp add: init_def BinaryIndexedTree_Compact_ctor_def fenwick_c_def wellFormed_c_def)
next
  case False
  with assms have "take_bit 64 sz = sz" by (simp add: take_bit_int_eq_self)
  with False assms show ?thesis
    by (simp add: init_def BinaryIndexedTree_Compact_ctor_def fenwick_c_def wellFormed_c_def
        resize_def nat_less_iff)
qed

lemma performAll_c_fenwick:
  "fenwick_c a c \<Longrightarrow> \<forall>k \<in> set calls. validCall_c (N c - 1) k \<Longrightarrow>
   performAll_c c calls = Some (Inr c') \<Longrightarrow>
   fenwick_c (foldl record_call_c a calls) c' \<and> N c' = N c"
proof (induction calls arbitrary: a c)
  case Nil
  then show ?case by simp
next
  case (Cons k ks)
  from Cons.prems(3) obtain c1 where
    step: "perform_c c k = Some (Inr c1)" and rest: "performAll_c c1 ks = Some (Inr c')"
    by (simp split: option.splits sum.splits)
  have "fenwick_c (record_call_c a k) c1 \<and> N c1 = N c"
  proof (cases k)
    case (Add idx v)
    with Cons.prems(2) step have "1 \<le> idx" "add c idx v = Some (Inr c1)" by simp_all
    from fenwick_c_add [OF Cons.prems(1) this] show ?thesis
      by (simp add: Add)
  next
    case (Sum idx)
    with step have "c1 = c" by (simp split: option.splits sum.splits)
    with Cons.prems(1) show ?thesis by (simp add: Sum)
  qed
  with Cons.IH [of "record_call_c a k" c1] Cons.prems(2) rest show ?case
    by simp
qed

lemma reachable_c_fenwick:
  assumes "reachable_c sz calls c"
  shows "fenwick_c (logical_c calls) c"
proof -
  from assms have len: "sz < 2 ^ 31"
    and valid: "\<forall>k \<in> set calls. validCall_c (sz - 1) k"
    and run: "performAll_c (init BinaryIndexedTree_Compact_ctor sz) calls = Some (Inr c)"
    by (simp_all add: reachable_c_def)
  have "validCall_c (N (init BinaryIndexedTree_Compact_ctor sz) - 1) k"
    if "k \<in> set calls" for k
  proof (cases k)
    case (Add idx v)
    with valid that have "1 \<le> idx" "idx \<le> sz - 1" by auto
    then show ?thesis by (simp add: Add init_def)
  next
    case (Sum idx)
    then show ?thesis by simp
  qed
  with performAll_c_fenwick [OF init_fenwick_c [OF len] _ run] show ?thesis
    by (simp add: logical_c_def)
qed


section \<open>Where the compact loops subscript the buffer\<close>






section \<open>The example trees\<close>

lemmas bit_eval = inBounds_def getNext_def getPrev_def int32_def

lemma replicate_6: "replicate 6 x = [x, x, x, x, x, x]"
  by (simp add: eval_nat_numeral)

lemma replicate_3: "replicate 3 x = [x, x, x]"
  by (simp add: eval_nat_numeral)

text \<open>The element at index 0 of the input vector is never read.\<close>

lemma create_1_to_5:
  "createFenwickTree BinaryIndexedTree_ctor [x, 1, 2, 3, 4, 5] = Some (Inr mainTree)"
  by (simp add: createFenwickTree_def BinaryIndexedTree_ctor_def resize_def mainTree_def
      createFenwickTree_loop.simps updateTree.simps bit_eval replicate_6)

lemma create_ARR: "createFenwickTree BinaryIndexedTree_ctor ARR = Some (Inr mainTree)"
  by (simp add: ARR_def create_1_to_5)

lemma reachable_ARR: "reachable ARR [] mainTree"
  by (simp add: reachable_def create_ARR) (simp add: ARR_def)

lemma capacity_mainTree: "capacity mainTree = 5"
  by (simp add: capacity_def mainTree_def)

lemma reachable_updatedTree: "reachable ARR sampleCalls updatedTree"
proof -
  have "performAll mainTree sampleCalls = Some (Inr updatedTree)"
    by (simp add: sampleCalls_def mainTree_def updatedTree_def updateTree.simps
        getPrefixSum_def getPrefixSum_loop.simps getOriginalValue_def
        getOriginalValue_loop.simps getSum_def getSum_loop1.simps getSum_loop2.simps bit_eval)
  then show ?thesis
    by (simp add: reachable_def create_ARR) (simp add: ARR_def sampleCalls_def)
qed

lemma total_mainTree: "sum (logical ARR []) {0 <.. capacity mainTree} = 15"
proof -
  from reachable_fenwick [OF reachable_ARR]
  have "getPrefixSum mainTree 5 = Some (Inr (sum (logical ARR []) {0 <.. 5}))"
    by (intro getPrefixSum_fenwick) (simp_all add: mainTree_def)
  moreover have "getPrefixSum mainTree 5 = Some (Inr 15)"
    by (simp add: getPrefixSum_def mainTree_def getPrefixSum_loop.simps bit_eval)
  ultimately show ?thesis by (simp add: capacity_mainTree)
qed

lemma init_3: "init BinaryIndexedTree_Compact_ctor 3 = \<lparr>N = 3, BIT = [0, 0, 0]\<rparr>"
  by (simp add: init_def BinaryIndexedTree_Compact_ctor_def resize_def replicate_3)

lemma add_1_7: "add \<lparr>N = 3, BIT = [0, 0, 0]\<rparr> 1 7 = Some (Inr \<lparr>N = 3, BIT = [0, 7, 7]\<rparr>)"
  by (simp add: add_def add_loop.simps check_def lowbit_def fits32_def bit_eval)

text \<open>
  In a buffer of \<open>2^30 + 1\<close> cells, \<open>add\<close> at index \<open>2^30\<close> passes \<open>check\<close>, and its step
  to \<open>2^31\<close> overflows.
\<close>

lemma add_overflow:
  "add (init BinaryIndexedTree_Compact_ctor (2 ^ 30 + 1)) (2 ^ 30) v = Some (Inl SignedOverflow)"
  unfolding add_def
  by (subst add_loop.simps)
    (simp add: init_def BinaryIndexedTree_Compact_ctor_def resize_def check_def inBounds_def
      lowbit_def int32_def fits32_def)

lemma reachable_compactTree: "reachable_c 3 [Add 1 7] compactTree"
  by (simp add: reachable_c_def init_3 add_1_7 compactTree_def)

lemma prefixSum_mainTree_5: "getPrefixSum mainTree 5 = Some (Inr 15)"
  by (simp add: getPrefixSum_def mainTree_def getPrefixSum_loop.simps bit_eval)

lemma prefixSum_mainTree_6: "getPrefixSum mainTree 6 = Some (Inr 0)"
  by (simp add: getPrefixSum_def mainTree_def)

lemma pointValue_mainTree:
  "getOriginalValue mainTree 1 = Some (Inr 1)" "getOriginalValue mainTree 2 = Some (Inr 2)"
  "getOriginalValue mainTree 3 = Some (Inr 3)" "getOriginalValue mainTree 4 = Some (Inr 4)"
  "getOriginalValue mainTree 5 = Some (Inr 5)"
  by (simp_all add: getOriginalValue_def mainTree_def getOriginalValue_loop.simps bit_eval)

lemma rangeSum_mainTree_2_4: "getSum mainTree 2 4 = Some (Inr 9)"
  by (simp add: getSum_def mainTree_def getSum_loop1.simps getSum_loop2.simps bit_eval)

lemma rangeSum_mainTree_4_2: "getSum mainTree 4 2 = Some (Inr 0)"
  by (simp add: getSum_def)

lemma updateTree_mainTree_6: "updateTree mainTree 6 5 = Some (Inr mainTree)"
  by (simp add: updateTree.simps mainTree_def)

lemma sum_compactTree:
  "sum_compact compactTree 2 = Some (Inr 7)" "sum_compact compactTree 3 = Some (Inr 0)"
  by (simp_all add: sum_compact_def compactTree_def sum_loop.simps check_def lowbit_def bit_eval)

lemma add_compactTree_outside:
  "add compactTree 0 5 = Some (Inr compactTree)" "add compactTree 3 5 = Some (Inr compactTree)"
  by (simp_all add: add_def add_loop.simps check_def compactTree_def)

lemma init_not_positive:
  "init BinaryIndexedTree_Compact_ctor 0 = BinaryIndexedTree_Compact_ctor"
  "init BinaryIndexedTree_Compact_ctor (- 3) = BinaryIndexedTree_Compact_ctor"
  by (simp_all add: init_def)

lemma create_empty:
  "createFenwickTree BinaryIndexedTree_ctor [] = Some (Inr BinaryIndexedTree_ctor)"
  by (simp add: createFenwickTree_def BinaryIndexedTree_ctor_def resize_def
      createFenwickTree_loop.simps int32_def)

section \<open>The claims\<close>

text \<open>
  C1.  In every tree built by \<open>createFenwickTree\<close> and a sequence of valid updates, the
  cell at every index \<open>i\<close> in \<open>[1, N]\<close> holds the sum of the logical elements over the
  half-open range \<open>(i - lowbit(i), i]\<close>.  Queries may be interleaved with the updates: a
  query that returns leaves the tree as it was, and the prefix-sum, range-sum and
  point-value queries with valid arguments do return.  The same invariant holds for the
  compact class, with \<open>add\<close> as the update and \<open>sum\<close> as the query.
\<close>

theorem aggregate_invariant:
  "(reachable input calls t \<longrightarrow>
      (\<forall>i. 1 \<le> i \<and> i \<le> capacity t \<longrightarrow>
         m_bitArray t ! nat i = sum (logical input calls) {i - lowbit i <.. i}) \<and>
      (\<forall>q t'. isQuery q \<and> perform t q = Some (Inr t') \<longrightarrow> t' = t) \<and>
      (\<forall>k. perform t (PrefixSum k) = Some (Inr t)) \<and>
      (\<forall>i j. 1 \<le> i \<and> j \<le> capacity t \<longrightarrow> perform t (RangeSum i j) = Some (Inr t)) \<and>
      (\<forall>i. 1 \<le> i \<longrightarrow> perform t (PointValue i) = Some (Inr t))) \<and>
   (reachable_c sz calls_c c \<longrightarrow>
      (\<forall>i. 1 \<le> i \<and> i < N c \<longrightarrow>
         BIT c ! nat i = sum (logical_c calls_c) {i - lowbit i <.. i}) \<and>
      (\<forall>k. perform_c c (Sum k) = Some (Inr c)))"
proof (intro conjI impI)
  assume r: "reachable input calls t"
  from reachable_fenwick [OF r] have f: "fenwick (logical input calls) t" by simp
  show "\<forall>i. 1 \<le> i \<and> i \<le> capacity t \<longrightarrow>
      m_bitArray t ! nat i = sum (logical input calls) {i - lowbit i <.. i}"
  proof (intro allI impI)
    fix i :: int assume i: "1 \<le> i \<and> i \<le> capacity t"
    then have i': "1 \<le> i" "i < m_size t" by (simp_all add: capacity_def)
    with f have "i < 2 ^ 31" by (simp add: fenwick_def wellFormed_def)
    with i' have "lowbit i = lb i" by (simp add: lowbit_lb)
    with fenwick_cell(5) [OF f i'] show
      "m_bitArray t ! nat i = sum (logical input calls) {i - lowbit i <.. i}" by simp
  qed
  show "\<forall>q t'. isQuery q \<and> perform t q = Some (Inr t') \<longrightarrow> t' = t"
    using query_keeps_tree by blast
  show "\<forall>k. perform t (PrefixSum k) = Some (Inr t)"
  proof
    fix k
    from getPrefixSum_total [OF f, of k] obtain r where "getPrefixSum t k = Some (Inr r)"
      by blast
    then show "perform t (PrefixSum k) = Some (Inr t)" by simp
  qed
  show "\<forall>i j. 1 \<le> i \<and> j \<le> capacity t \<longrightarrow> perform t (RangeSum i j) = Some (Inr t)"
  proof (intro allI impI)
    fix i j :: int assume "1 \<le> i \<and> j \<le> capacity t"
    then have "\<exists>r. getSum t i j = Some (Inr r)"
      by (intro getSum_total [OF f]) (simp_all add: capacity_def)
    then obtain r where "getSum t i j = Some (Inr r)" by blast
    then show "perform t (RangeSum i j) = Some (Inr t)" by simp
  qed
  show "\<forall>i. 1 \<le> i \<longrightarrow> perform t (PointValue i) = Some (Inr t)"
  proof (intro allI impI)
    fix i :: int assume "1 \<le> i"
    from getOriginalValue_total [OF f this] obtain r where
      "getOriginalValue t i = Some (Inr r)" by blast
    then show "perform t (PointValue i) = Some (Inr t)" by simp
  qed
next
  assume r: "reachable_c sz calls_c c"
  from reachable_c_fenwick [OF r] have f: "fenwick_c (logical_c calls_c) c" .
  then show "\<forall>i. 1 \<le> i \<and> i < N c \<longrightarrow>
      BIT c ! nat i = sum (logical_c calls_c) {i - lowbit i <.. i}"
    by (simp add: fenwick_c_def)
  from f have "wellFormed_c c" by (simp add: fenwick_c_def)
  show "\<forall>k. perform_c c (Sum k) = Some (Inr c)"
  proof
    fix k
    from sum_loop_returns [OF \<open>wellFormed_c c\<close>, of k 0] obtain r where
      "sum_compact c k = Some (Inr r)" by (auto simp add: sum_compact_def)
    then show "perform_c c (Sum k) = Some (Inr c)" by simp
  qed
qed

theorem aggregate_invariant_witness:
  "reachable ARR sampleCalls updatedTree \<and> reachable_c 3 [Add 1 7] compactTree \<and>
   ((1::int) \<le> 4 \<and> 4 \<le> capacity updatedTree) \<and>
   m_bitArray updatedTree ! nat 4 = sum (logical ARR sampleCalls) {4 - lowbit 4 <.. 4} \<and>
   perform updatedTree (PrefixSum 5) = Some (Inr updatedTree) \<and>
   perform updatedTree (RangeSum 2 4) = Some (Inr updatedTree) \<and>
   perform updatedTree (PointValue 3) = Some (Inr updatedTree) \<and>
   ((1::int) \<le> 2 \<and> 2 < N compactTree) \<and>
   BIT compactTree ! nat 2 = sum (logical_c [Add 1 7]) {2 - lowbit 2 <.. 2}"
proof -
  note both = aggregate_invariant [of ARR sampleCalls updatedTree 3 "[Add 1 7]" compactTree]
  note bit1 = both [THEN conjunct1, THEN mp, OF reachable_updatedTree]
  note compact = both [THEN conjunct2, THEN mp, OF reachable_compactTree]
  have h: "(1::int) \<le> 4 \<and> 4 \<le> capacity updatedTree" "(1::int) \<le> 2 \<and> 4 \<le> capacity updatedTree"
    "(1::int) \<le> 3" "(1::int) \<le> 2 \<and> 2 < N compactTree"
    by (simp_all add: capacity_def updatedTree_def compactTree_def)
  from bit1 h(1)
  have a: "m_bitArray updatedTree ! nat 4 = sum (logical ARR sampleCalls) {4 - lowbit 4 <.. 4}"
    by blast
  from bit1 have b: "perform updatedTree (PrefixSum 5) = Some (Inr updatedTree)"
    by blast
  from bit1 h(2) have c: "perform updatedTree (RangeSum 2 4) = Some (Inr updatedTree)"
    by blast
  from bit1 h(3) have d: "perform updatedTree (PointValue 3) = Some (Inr updatedTree)"
    by blast
  from compact h(4)
  have e: "BIT compactTree ! nat 2 = sum (logical_c [Add 1 7]) {2 - lowbit 2 <.. 2}"
    by blast
  from reachable_updatedTree reachable_compactTree h(1,4) a b c d e show ?thesis
    by blast
qed

text \<open>
  C2.  In a reachable tree of capacity \<open>N\<close>, \<open>updateTree(i, delta)\<close> with \<open>i\<close> in
  \<open>[1, N]\<close> returns, and afterwards \<open>getPrefixSum(k)\<close> is larger by exactly \<open>delta\<close> for
  every \<open>k\<close> with \<open>i \<le> k \<le> N\<close> and is unchanged for every \<open>k\<close> with \<open>0 \<le> k < i\<close>.
\<close>

theorem update_shifts_prefix_sums:
  assumes "reachable input calls t" and "1 \<le> i" and "i \<le> capacity t"
  shows "\<exists>t'. updateTree t i delta = Some (Inr t') \<and>
    (\<forall>k. i \<le> k \<and> k \<le> capacity t \<longrightarrow>
       (\<exists>p. getPrefixSum t k = Some (Inr p) \<and> getPrefixSum t' k = Some (Inr (p + delta)))) \<and>
    (\<forall>k. 0 \<le> k \<and> k < i \<longrightarrow>
       (\<exists>p. getPrefixSum t k = Some (Inr p) \<and> getPrefixSum t' k = Some (Inr p)))"
proof -
  define a where "a = logical input calls"
  from reachable_fenwick [OF assms(1)] have f: "fenwick a t" by (simp add: a_def)
  then have wf: "wellFormed t" by (simp add: fenwick_def)
  from updateTree_returns [OF wf reachable_size [OF assms(1)] assms(2)]
  obtain t' where up: "updateTree t i delta = Some (Inr t')" by blast
  from fenwick_update [OF f assms(2) up]
  have f': "fenwick (a(i := a i + delta)) t'" and sz: "m_size t' = m_size t" by simp_all
  have above: "\<exists>p. getPrefixSum t k = Some (Inr p) \<and> getPrefixSum t' k = Some (Inr (p + delta))"
    if k: "i \<le> k \<and> k \<le> capacity t" for k
  proof -
    from k assms(2) have r: "0 \<le> k" "k < m_size t" by (simp_all add: capacity_def)
    from k assms(2) have "sum (a(i := a i + delta)) {0 <.. k} = sum a {0 <.. k} + delta"
      by (simp only: sum_point_update) simp
    with getPrefixSum_fenwick [OF f r] getPrefixSum_fenwick [OF f', of k] r sz
    show ?thesis by simp
  qed
  have below: "\<exists>p. getPrefixSum t k = Some (Inr p) \<and> getPrefixSum t' k = Some (Inr p)"
    if k: "0 \<le> k \<and> k < i" for k
  proof -
    from k assms(3) have r: "0 \<le> k" "k < m_size t" by (simp_all add: capacity_def)
    from k have "sum (a(i := a i + delta)) {0 <.. k} = sum a {0 <.. k}"
      by (simp only: sum_point_update) simp
    with getPrefixSum_fenwick [OF f r] getPrefixSum_fenwick [OF f', of k] r sz
    show ?thesis by simp
  qed
  from up above below show ?thesis by blast
qed

theorem update_shifts_prefix_sums_witness:
  "reachable ARR sampleCalls updatedTree \<and> (1::int) \<le> 3 \<and> 3 \<le> capacity updatedTree \<and>
   (\<exists>t'. updateTree updatedTree 3 7 = Some (Inr t') \<and>
      (\<exists>p. getPrefixSum updatedTree 5 = Some (Inr p) \<and> getPrefixSum t' 5 = Some (Inr (p + 7))) \<and>
      (\<exists>p. getPrefixSum updatedTree 2 = Some (Inr p) \<and> getPrefixSum t' 2 = Some (Inr p)))"
proof -
  have h: "(1::int) \<le> 3" "3 \<le> capacity updatedTree"
    by (simp_all add: capacity_def updatedTree_def)
  from update_shifts_prefix_sums [OF reachable_updatedTree h, of 7] obtain t' where
    up: "updateTree updatedTree 3 7 = Some (Inr t')"
    and above: "\<forall>k. 3 \<le> k \<and> k \<le> capacity updatedTree \<longrightarrow>
       (\<exists>p. getPrefixSum updatedTree k = Some (Inr p) \<and> getPrefixSum t' k = Some (Inr (p + 7)))"
    and below: "\<forall>k. 0 \<le> k \<and> k < 3 \<longrightarrow>
       (\<exists>p. getPrefixSum updatedTree k = Some (Inr p) \<and> getPrefixSum t' k = Some (Inr p))"
    by blast
  have "(3::int) \<le> 5 \<and> 5 \<le> capacity updatedTree"
    by (simp add: capacity_def updatedTree_def)
  with above have a: "\<exists>p. getPrefixSum updatedTree 5 = Some (Inr p) \<and>
      getPrefixSum t' 5 = Some (Inr (p + 7))" by blast
  have "(0::int) \<le> 2 \<and> (2::int) < 3" by simp
  with below have b: "\<exists>p. getPrefixSum updatedTree 2 = Some (Inr p) \<and>
      getPrefixSum t' 2 = Some (Inr p)" by blast
  from reachable_updatedTree h up a b show ?thesis by blast
qed

text \<open>
  C3.  In a reachable tree and for every index \<open>i\<close> in \<open>[1, N]\<close>, \<open>getOriginalValue(i)\<close>,
  which walks from \<open>i - 1\<close> down to the point where the chains of \<open>i\<close> and \<open>i - 1\<close> meet,
  returns \<open>getPrefixSum(i) - getPrefixSum(i - 1)\<close>.
\<close>

theorem pointValue_is_prefix_difference:
  assumes "reachable input calls t" and "1 \<le> i" and "i \<le> capacity t"
  shows "\<exists>p q. getPrefixSum t i = Some (Inr p) \<and> getPrefixSum t (i - 1) = Some (Inr q) \<and>
    getOriginalValue t i = Some (Inr (p - q))"
proof -
  define a where "a = logical input calls"
  from reachable_fenwick [OF assms(1)] have f: "fenwick a t" by (simp add: a_def)
  from assms have r: "i < m_size t" "0 \<le> i" "0 \<le> i - 1" "i - 1 < m_size t"
    by (simp_all add: capacity_def)
  have "sum a {0 <.. i - 1} + a i = sum a {0 <.. i}"
    using assms(2) by (intro sum_last) simp
  then have "sum a {0 <.. i} - sum a {0 <.. i - 1} = a i"
    by (simp add: algebra_simps)
  with getPrefixSum_fenwick [OF f r(2,1)] getPrefixSum_fenwick [OF f r(3,4)]
    getOriginalValue_fenwick [OF f assms(2) r(1)]
  show ?thesis by simp
qed

theorem pointValue_is_prefix_difference_witness:
  "reachable ARR sampleCalls updatedTree \<and> (1::int) \<le> 4 \<and> 4 \<le> capacity updatedTree \<and>
   (\<exists>p q. getPrefixSum updatedTree 4 = Some (Inr p) \<and>
      getPrefixSum updatedTree (4 - 1) = Some (Inr q) \<and>
      getOriginalValue updatedTree 4 = Some (Inr (p - q)))"
proof -
  have h: "(1::int) \<le> 4" "4 \<le> capacity updatedTree"
    by (simp_all add: capacity_def updatedTree_def)
  from reachable_updatedTree h pointValue_is_prefix_difference [OF reachable_updatedTree h]
  show ?thesis by blast
qed

text \<open>
  C4.  In a reachable tree and for all \<open>1 \<le> i \<le> j \<le> N\<close>, the combined walk of
  \<open>getSum(i, j)\<close> returns \<open>getPrefixSum(j) - getPrefixSum(i - 1)\<close>, the result of the two
  independent prefix walks.
\<close>

theorem rangeSum_is_prefix_difference:
  assumes "reachable input calls t" and "1 \<le> i" and "i \<le> j" and "j \<le> capacity t"
  shows "\<exists>p q. getPrefixSum t j = Some (Inr p) \<and> getPrefixSum t (i - 1) = Some (Inr q) \<and>
    getSum t i j = Some (Inr (p - q))"
proof -
  define a where "a = logical input calls"
  from reachable_fenwick [OF assms(1)] have f: "fenwick a t" by (simp add: a_def)
  from assms have r: "j < m_size t" "0 \<le> j" "0 \<le> i - 1" "i - 1 < m_size t"
    by (simp_all add: capacity_def)
  have "sum a {0 <.. i - 1} + sum a {i - 1 <.. j} = sum a {0 <.. j}"
    using assms(2,3) by (intro sum_split) simp_all
  then have "sum a {0 <.. j} - sum a {0 <.. i - 1} = sum a {i - 1 <.. j}"
    by (simp add: algebra_simps)
  with getPrefixSum_fenwick [OF f r(2,1)] getPrefixSum_fenwick [OF f r(3,4)]
    getSum_fenwick [OF f assms(2,3) r(1)]
  show ?thesis by simp
qed

theorem rangeSum_is_prefix_difference_witness:
  "reachable ARR sampleCalls updatedTree \<and> (1::int) \<le> 2 \<and> (2::int) \<le> 4 \<and> 4 \<le> capacity updatedTree \<and>
   (\<exists>p q. getPrefixSum updatedTree 4 = Some (Inr p) \<and>
      getPrefixSum updatedTree (2 - 1) = Some (Inr q) \<and>
      getSum updatedTree 2 4 = Some (Inr (p - q)))"
proof -
  have h: "(1::int) \<le> 2" "(2::int) \<le> 4" "4 \<le> capacity updatedTree"
    by (simp_all add: capacity_def updatedTree_def)
  from reachable_updatedTree h rangeSum_is_prefix_difference [OF reachable_updatedTree h]
  show ?thesis by blast
qed

text \<open>
  C5 asks that a prefix sum beyond the capacity be the sum of all elements.  Both
  classes return 0 there: in the tree of \<open>main\<close> the sum of all five elements is 15, and
  \<open>getPrefixSum(6)\<close> is 0; in the compact tree \<open>sum(3)\<close> is 0 while \<open>sum(2)\<close> is 7.
\<close>

theorem prefixSum_clamp_counterexample:
  "reachable ARR [] mainTree \<and> capacity mainTree = 5 \<and>
   sum (logical ARR []) {0 <.. capacity mainTree} = 15 \<and>
   getPrefixSum mainTree 5 = Some (Inr 15) \<and> getPrefixSum mainTree 6 = Some (Inr 0) \<and>
   reachable_c 3 [Add 1 7] compactTree \<and>
   sum_compact compactTree 2 = Some (Inr 7) \<and> sum_compact compactTree 3 = Some (Inr 0)"
  using reachable_ARR capacity_mainTree total_mainTree prefixSum_mainTree_5
    prefixSum_mainTree_6 reachable_compactTree sum_compactTree
  by simp

text \<open>
  C5, as the code has it: in a reachable tree \<open>getPrefixSum\<close> returns 0 for every index
  above the capacity (the guard \<open>idx >= _size\<close>), and the sum of all elements at the
  capacity itself; \<open>sum\<close> of the compact class returns 0 for every index above its
  capacity \<open>N - 1\<close>.
\<close>

theorem prefixSum_beyond_capacity:
  "(reachable input calls t \<longrightarrow>
      (\<forall>idx. capacity t < idx \<longrightarrow> getPrefixSum t idx = Some (Inr 0)) \<and>
      (0 \<le> capacity t \<longrightarrow>
         getPrefixSum t (capacity t) = Some (Inr (sum (logical input calls) {0 <.. capacity t})))) \<and>
   (reachable_c sz calls_c c \<longrightarrow>
      (\<forall>id'. N c - 1 < id' \<longrightarrow> sum_compact c id' = Some (Inr 0)))"
proof (intro conjI impI allI)
  fix idx assume "capacity t < idx"
  then show "getPrefixSum t idx = Some (Inr 0)"
    by (simp add: getPrefixSum_def capacity_def)
next
  assume r: "reachable input calls t" and c: "0 \<le> capacity t"
  from reachable_fenwick [OF r] have f: "fenwick (logical input calls) t" by simp
  from c show "getPrefixSum t (capacity t) =
      Some (Inr (sum (logical input calls) {0 <.. capacity t}))"
    by (intro getPrefixSum_fenwick [OF f]) (simp_all add: capacity_def)
next
  fix id' :: int assume "N c - 1 < id'"
  then have "\<not> check c id'" by (simp add: check_def)
  then show "sum_compact c id' = Some (Inr 0)"
    unfolding sum_compact_def by (subst sum_loop.simps) simp
qed

theorem prefixSum_beyond_capacity_witness:
  "reachable ARR [] mainTree \<and> capacity mainTree < 6 \<and> 0 \<le> capacity mainTree \<and>
   getPrefixSum mainTree 6 = Some (Inr 0) \<and>
   getPrefixSum mainTree (capacity mainTree) =
     Some (Inr (sum (logical ARR []) {0 <.. capacity mainTree})) \<and>
   reachable_c 3 [Add 1 7] compactTree \<and> N compactTree - 1 < 3 \<and>
   sum_compact compactTree 3 = Some (Inr 0)"
proof -
  note both = prefixSum_beyond_capacity [of ARR "[]" mainTree 3 "[Add 1 7]" compactTree]
  note bit1 = both [THEN conjunct1, THEN mp, OF reachable_ARR]
  note compact = both [THEN conjunct2, THEN mp, OF reachable_compactTree]
  have h: "capacity mainTree < 6" "0 \<le> capacity mainTree" "N compactTree - 1 < 3"
    by (simp_all add: capacity_mainTree compactTree_def)
  from bit1 h have a: "getPrefixSum mainTree 6 = Some (Inr 0)" by blast
  from bit1 h have b: "getPrefixSum mainTree (capacity mainTree) =
     Some (Inr (sum (logical ARR []) {0 <.. capacity mainTree}))" by blast
  from compact h have c: "sum_compact compactTree 3 = Some (Inr 0)" by blast
  from reachable_ARR reachable_compactTree h a b c show ?thesis by blast
qed

text \<open>
  C6 asks that an update outside \<open>[1, N]\<close> fail with an error.  Neither class has an
  error to fail with: \<open>updateTree(6, 5)\<close> on the tree of \<open>main\<close> (capacity 5) returns with
  the tree unchanged, and so do \<open>add(0, 5)\<close> and \<open>add(3, 5)\<close> on the compact tree
  (capacity 2).
\<close>

theorem update_out_of_range_counterexample:
  "reachable ARR [] mainTree \<and> capacity mainTree = 5 \<and>
   updateTree mainTree 6 5 = Some (Inr mainTree) \<and>
   reachable_c 3 [Add 1 7] compactTree \<and>
   add compactTree 0 5 = Some (Inr compactTree) \<and>
   add compactTree 3 5 = Some (Inr compactTree)"
  using reachable_ARR capacity_mainTree updateTree_mainTree_6 reachable_compactTree
    add_compactTree_outside
  by simp

text \<open>
  C6, as the code has it: \<open>updateTree\<close> with an index above the capacity returns and
  leaves the tree unchanged; \<open>add\<close> of the compact class does so for every index
  outside \<open>[1, N - 1]\<close>.  No error is reported.
\<close>

theorem update_out_of_range:
  "(\<forall>idx. capacity t < idx \<longrightarrow> updateTree t idx v = Some (Inr t)) \<and>
   (\<forall>id'. id' < 1 \<or> N c - 1 < id' \<longrightarrow> add c id' num = Some (Inr c))"
proof (intro conjI impI allI)
  fix idx assume "capacity t < idx"
  then show "updateTree t idx v = Some (Inr t)"
    by (subst updateTree.simps) (simp add: capacity_def)
next
  fix id' :: int assume "id' < 1 \<or> N c - 1 < id'"
  then have "\<not> check c id'" by (auto simp add: check_def)
  then show "add c id' num = Some (Inr c)"
    unfolding add_def by (subst add_loop.simps) simp
qed

theorem update_out_of_range_witness:
  "capacity mainTree < 6 \<and> updateTree mainTree 6 5 = Some (Inr mainTree) \<and>
   ((0::int) < 1 \<or> N compactTree - 1 < 0) \<and> add compactTree 0 5 = Some (Inr compactTree)"
proof -
  note both = update_out_of_range [of mainTree 5 compactTree 5]
  have h: "capacity mainTree < 6" "(0::int) < 1 \<or> N compactTree - 1 < 0"
    by (simp_all add: capacity_mainTree)
  from both h have a: "updateTree mainTree 6 5 = Some (Inr mainTree)" by blast
  from both h have b: "add compactTree 0 5 = Some (Inr compactTree)" by blast
  from h a b show ?thesis by blast
qed

text \<open>
  C7 asks that creating a structure with a capacity that is not positive fail with
  an error.  \<open>init(0)\<close> and \<open>init(-3)\<close> return and leave the freshly constructed object
  as it was, and \<open>createFenwickTree\<close> accepts the empty vector.
\<close>

theorem create_capacity_counterexample:
  "init BinaryIndexedTree_Compact_ctor 0 = BinaryIndexedTree_Compact_ctor \<and>
   init BinaryIndexedTree_Compact_ctor (- 3) = BinaryIndexedTree_Compact_ctor \<and>
   createFenwickTree BinaryIndexedTree_ctor [] = Some (Inr BinaryIndexedTree_ctor)"
  using init_not_positive create_empty by simp

text \<open>
  C7, as the code has it: \<open>init(sz)\<close> with \<open>sz \<le> 0\<close> returns without changing the
  object and reports nothing; with \<open>sz > 0\<close> on a freshly constructed object it sets the
  size and allocates a buffer of \<open>sz\<close> cells, every one zero.
\<close>

theorem init_behaviour:
  "(sz \<le> 0 \<longrightarrow> init c sz = c) \<and>
   (0 < sz \<and> sz < 2 ^ 31 \<longrightarrow>
      init BinaryIndexedTree_Compact_ctor sz = \<lparr>N = sz, BIT = replicate (nat sz) 0\<rparr>)"
proof (intro conjI impI)
  assume "sz \<le> 0"
  then show "init c sz = c" by (simp add: init_def)
next
  assume a: "0 < sz \<and> sz < 2 ^ 31"
  then have "take_bit 64 sz = sz" by (simp add: take_bit_int_eq_self)
  with a show "init BinaryIndexedTree_Compact_ctor sz = \<lparr>N = sz, BIT = replicate (nat sz) 0\<rparr>"
    by (simp add: init_def BinaryIndexedTree_Compact_ctor_def resize_def)
qed

theorem init_behaviour_witness:
  "(- 3::int) \<le> 0 \<and> init compactTree (- 3) = compactTree \<and>
   ((0::int) < 3 \<and> (3::int) < 2 ^ 31) \<and>
   init BinaryIndexedTree_Compact_ctor 3 = \<lparr>N = 3, BIT = replicate (nat 3) 0\<rparr>"
proof -
  have h: "(- 3::int) \<le> 0" "(0::int) < 3 \<and> (3::int) < 2 ^ 31" by simp_all
  from init_behaviour [of "- 3" compactTree] h
  have a: "init compactTree (- 3) = compactTree" by blast
  from init_behaviour [of 3] h
  have b: "init BinaryIndexedTree_Compact_ctor 3 = \<lparr>N = 3, BIT = replicate (nat 3) 0\<rparr>"
    by blast
  from h a b show ?thesis by blast
qed

text \<open>
  C8.  The scenario of \<open>main\<close>: building from \<open>{x, 1, 2, 3, 4, 5}\<close> (index 0 is unused,
  \<open>main\<close> has 0 there) gives a tree in which \<open>getOriginalValue(i)\<close> is \<open>i\<close> for \<open>i\<close> from 1 to 5,
  \<open>getPrefixSum(5)\<close> is 15, \<open>getSum(2, 4)\<close> is 9 and \<open>getSum(4, 2)\<close>, an empty range, is 0.
\<close>

theorem main_scenario:
  "createFenwickTree BinaryIndexedTree_ctor [x, 1, 2, 3, 4, 5] = Some (Inr mainTree) \<and>
   getOriginalValue mainTree 1 = Some (Inr 1) \<and>
   getOriginalValue mainTree 2 = Some (Inr 2) \<and>
   getOriginalValue mainTree 3 = Some (Inr 3) \<and>
   getOriginalValue mainTree 4 = Some (Inr 4) \<and>
   getOriginalValue mainTree 5 = Some (Inr 5) \<and>
   getPrefixSum mainTree 5 = Some (Inr 15) \<and>
   getSum mainTree 2 4 = Some (Inr 9) \<and>
   getSum mainTree 4 2 = Some (Inr 0)"
  using create_1_to_5 [of x] pointValue_mainTree prefixSum_mainTree_5 rangeSum_mainTree_2_4
    rangeSum_mainTree_4_2
  by simp

text \<open>
  C9.  On a reachable tree the loop of \<open>updateTree\<close> ends for every starting index
  from 1 on, since \<open>getNext\<close> gives a larger index at every index the loop can be at;
  started at index 0 on a tree that is not empty it never ends, since \<open>getNext(0)\<close> is 0.
\<close>

theorem updateTree_termination:
  assumes "reachable input calls t"
  shows "(\<forall>idx v. 1 \<le> idx \<longrightarrow> (\<exists>t'. updateTree t idx v = Some (Inr t'))) \<and>
    (\<forall>idx. 1 \<le> idx \<and> idx < m_size t \<longrightarrow> idx < getNext idx) \<and>
    (\<forall>v. 0 < m_size t \<longrightarrow> updateTree t 0 v = None) \<and>
    getNext 0 = 0"
proof (intro conjI allI impI)
  from reachable_fenwick [OF assms] have wf: "wellFormed t" by (simp add: fenwick_def)
  note small = reachable_size [OF assms]
  {
    fix idx :: int and v assume "1 \<le> idx"
    from updateTree_returns [OF wf small this]
    show "\<exists>t'. updateTree t idx v = Some (Inr t')" .
  next
    fix idx :: int assume a: "1 \<le> idx \<and> idx < m_size t"
    then have pos: "0 < idx" by simp
    from lb_pos [OF pos] have lbp: "0 < lb idx" "lb idx \<le> idx" by simp_all
    with a small have "idx + lb idx < 2 ^ 31" by simp
    from getNext_small [OF pos this] lbp show "idx < getNext idx" by simp
  next
    fix v assume "0 < m_size t"
    with wf show "updateTree t 0 v = None"
      by (intro updateTree_0) (simp_all add: wellFormed_def inBounds_def)
  next
    show "getNext 0 = 0" by (rule getNext_0)
  }
qed

theorem updateTree_termination_witness:
  "reachable ARR [] mainTree \<and> (\<exists>t'. updateTree mainTree 3 7 = Some (Inr t')) \<and>
   ((1::int) \<le> 3 \<and> 3 < m_size mainTree) \<and> 3 < getNext 3 \<and>
   0 < m_size mainTree \<and> updateTree mainTree 0 7 = None"
proof -
  note th = updateTree_termination [OF reachable_ARR]
  have h: "(1::int) \<le> 3" "(1::int) \<le> 3 \<and> 3 < m_size mainTree" "0 < m_size mainTree"
    by (simp_all add: mainTree_def)
  from th h have a: "\<exists>t'. updateTree mainTree 3 7 = Some (Inr t')" by blast
  from th h have b: "3 < getNext 3" by blast
  from th h have c: "updateTree mainTree 0 7 = None" by blast
  from reachable_ARR h a b c show ?thesis by blast
qed



end
